theory Spec2Isabelle
  imports Complex_Main "HOL-Library.Log_Nat" "HOL-Library.Multiset"
    "HOL-Library.Signed_Division" "HOL-Library.Product_Lexorder"
begin

section \<open>JavaScript numbers\<close>

text \<open>
  A JavaScript number is an IEEE 754 double: a finite value, \<open>-0\<close>, \<open>Infinity\<close>,
  \<open>-Infinity\<close> or \<open>NaN\<close>. \<open>Num r\<close> is the finite value \<open>r\<close>, with \<open>Num 0\<close> for \<open>+0\<close>.
  Equality of two values of this type is \<open>Object.is\<close>: \<open>NaN\<close> is equal to itself, and
  \<open>+0\<close> and \<open>-0\<close> are different.
\<close>

datatype jsnum = Num real | NegZero | PosInf | NegInf | NaN

text \<open>
  Rounding to the nearest double, ties to even. \<open>expo a\<close> is the binary exponent of
  \<open>a > 0\<close> (\<open>2 ^ expo a \<le> a < 2 ^ (expo a + 1)\<close>), \<open>quantum a\<close> the distance between
  neighbouring doubles at \<open>a\<close> (53 significant bits, subnormal below \<open>2 ^ -1022\<close>), and
  \<open>fl x\<close> the double that the real result \<open>x\<close> of an operation is rounded to: an
  infinity from \<open>2 ^ 1024\<close> on, a signed zero on underflow.
\<close>

definition pow2 :: "int \<Rightarrow> real" where
  "pow2 k = (if 0 \<le> k then 2 ^ nat k else 1 / 2 ^ nat (- k))"

definition expo :: "real \<Rightarrow> int" where
  "expo a = (if 1 \<le> a then bitlen \<lfloor>a\<rfloor> - 1 else - bitlen (\<lceil>1 / a\<rceil> - 1))"

definition roundHalfEven :: "real \<Rightarrow> int" where
  "roundHalfEven y =
     (if y - of_int \<lfloor>y\<rfloor> < 1 / 2 then \<lfloor>y\<rfloor>
      else if 1 / 2 < y - of_int \<lfloor>y\<rfloor> then \<lfloor>y\<rfloor> + 1
      else if even \<lfloor>y\<rfloor> then \<lfloor>y\<rfloor> else \<lfloor>y\<rfloor> + 1)"

definition quantum :: "real \<Rightarrow> real" where
  "quantum a = pow2 (max (expo a) (- 1022) - 52)"

definition nearest :: "real \<Rightarrow> real" where
  "nearest a = of_int (roundHalfEven (a / quantum a)) * quantum a"

definition fl :: "real \<Rightarrow> jsnum" where
  "fl x =
     (if x = 0 then Num 0
      else if 2 ^ 1024 \<le> nearest \<bar>x\<bar> then (if 0 < x then PosInf else NegInf)
      else if nearest \<bar>x\<bar> = 0 then (if 0 < x then Num 0 else NegZero)
      else Num (if 0 < x then nearest \<bar>x\<bar> else - nearest \<bar>x\<bar>))"

fun isFin :: "jsnum \<Rightarrow> bool" where
  "isFin (Num r) = True"
| "isFin NegZero = True"
| "isFin x = False"

fun val :: "jsnum \<Rightarrow> real" where
  "val (Num r) = r"
| "val x = 0"

fun signBit :: "jsnum \<Rightarrow> bool" where
  "signBit (Num r) = (r < 0)"
| "signBit NegZero = True"
| "signBit NegInf = True"
| "signBit x = False"

text \<open>The operators \<open>-x\<close>, \<open>a + b\<close>, \<open>a - b\<close>, \<open>a * b\<close>, \<open>Math.floor\<close>, \<open>a < b\<close>, \<open>a <= b\<close>
  and \<open>Math.max(a, b)\<close>; a source literal such as \<open>0.8\<close> is \<open>fl (8 / 10)\<close>.\<close>

fun jneg :: "jsnum \<Rightarrow> jsnum" where
  "jneg (Num r) = (if r = 0 then NegZero else Num (- r))"
| "jneg NegZero = Num 0"
| "jneg PosInf = NegInf"
| "jneg NegInf = PosInf"
| "jneg NaN = NaN"

definition jadd :: "jsnum \<Rightarrow> jsnum \<Rightarrow> jsnum" where
  "jadd a b =
     (if a = NaN \<or> b = NaN then NaN
      else if isFin a \<and> isFin b then
        (if val a + val b = 0 then (if a = NegZero \<and> b = NegZero then NegZero else Num 0)
         else fl (val a + val b))
      else if isFin a then b
      else if isFin b then a
      else if a = b then a else NaN)"

definition jsub :: "jsnum \<Rightarrow> jsnum \<Rightarrow> jsnum" where
  "jsub a b = jadd a (jneg b)"

definition jmul :: "jsnum \<Rightarrow> jsnum \<Rightarrow> jsnum" where
  "jmul a b =
     (if a = NaN \<or> b = NaN then NaN
      else if isFin a \<and> isFin b then
        (if val a * val b = 0 then (if signBit a \<noteq> signBit b then NegZero else Num 0)
         else fl (val a * val b))
      else if (isFin a \<and> val a = 0) \<or> (isFin b \<and> val b = 0) then NaN
      else if signBit a \<noteq> signBit b then NegInf else PosInf)"

fun jfloor :: "jsnum \<Rightarrow> jsnum" where
  "jfloor (Num r) = Num (of_int \<lfloor>r\<rfloor>)"
| "jfloor x = x"

definition jlt :: "jsnum \<Rightarrow> jsnum \<Rightarrow> bool" where
  "jlt a b =
     (a \<noteq> NaN \<and> b \<noteq> NaN
      \<and> (if isFin a \<and> isFin b then val a < val b
           else (a = NegInf \<and> b \<noteq> NegInf) \<or> (b = PosInf \<and> a \<noteq> PosInf)))"

definition jle :: "jsnum \<Rightarrow> jsnum \<Rightarrow> bool" where
  "jle a b = (a \<noteq> NaN \<and> b \<noteq> NaN \<and> \<not> jlt b a)"

definition jmax :: "jsnum \<Rightarrow> jsnum \<Rightarrow> jsnum" where
  "jmax a b =
     (if a = NaN \<or> b = NaN then NaN
      else if jlt a b then b
      else if jlt b a then a
      else if a = NegZero then b else a)"

text \<open>\<open>xs[k]\<close> for an array \<open>xs\<close> and a number \<open>k\<close>: the element when \<open>k\<close> is an index of
  the array (\<open>-0\<close> is the index 0), \<open>undefined\<close> otherwise.\<close>

definition jsIndex :: "'a list \<Rightarrow> jsnum \<Rightarrow> 'a option" where
  "jsIndex xs k =
     (case k of
        Num r \<Rightarrow> (if r = of_int \<lfloor>r\<rfloor> \<and> 0 \<le> r \<and> r < real (length xs)
                  then Some (xs ! nat \<lfloor>r\<rfloor>) else None)
      | NegZero \<Rightarrow> (if xs = [] then None else Some (xs ! 0))
      | _ \<Rightarrow> None)"

text \<open>
  The finite doubles are the reals \<open>m * 2 ^ e\<close> with \<open>\<bar>m\<bar> < 2 ^ 53\<close> and
  \<open>-1074 \<le> e \<le> 971\<close>; all of them are multiples of \<open>2 ^ -1074\<close>. A value of type \<open>jsnum\<close>
  is a JavaScript number when its finite value is a double. The comparator of the sort
  orders a number when it is not \<open>NaN\<close> and, if finite, is a multiple of \<open>2 ^ -1074\<close>:
  every JavaScript number but \<open>NaN\<close>.
\<close>

definition onGrid :: "real \<Rightarrow> bool" where
  "onGrid r = (\<exists>k::int. r = of_int k * pow2 (- 1074))"

definition isDouble :: "real \<Rightarrow> bool" where
  "isDouble r = (\<exists>m e::int. \<bar>m\<bar> < 2 ^ 53 \<and> - 1074 \<le> e \<and> e \<le> 971 \<and> r = of_int m * pow2 e)"

definition jsNumber :: "jsnum \<Rightarrow> bool" where
  "jsNumber x = (case x of Num r \<Rightarrow> isDouble r | _ \<Rightarrow> True)"

definition sortable :: "jsnum \<Rightarrow> bool" where
  "sortable x = (x \<noteq> NaN \<and> (isFin x \<longrightarrow> onGrid (val x)))"

section \<open>Data model of GameOverlay.tsx\<close>

text \<open>
  A value of type \<open>string | undefined\<close> (what indexing an array of strings yields) is a
  \<^typ>\<open>string option\<close>, with \<open>None\<close> for \<open>undefined\<close>.
\<close>

record LeaderboardEntry =
  username :: "string option"
  score :: jsnum
  isNew :: bool

datatype GameStatus = MENU | PLAYING | GAME_OVER


section \<open>\<open>Array.prototype.sort\<close> with a comparator\<close>

text \<open>
  \<open>xs.sort(cmp)\<close> is a stable sort: \<open>a\<close> stays in front of \<open>b\<close> unless
  \<open>cmp(a, b) > 0\<close>; a comparator result of \<open>NaN\<close> counts as \<open>+0\<close>. It is modelled as
  insertion from the right, which is stable.
\<close>

fun insertSorted :: "('a \<Rightarrow> 'a \<Rightarrow> jsnum) \<Rightarrow> 'a \<Rightarrow> 'a list \<Rightarrow> 'a list" where
  "insertSorted cmp x [] = [x]"
| "insertSorted cmp x (y # ys) =
     (if jlt (Num 0) (cmp x y) then y # insertSorted cmp x ys else x # y # ys)"

fun sortBy :: "('a \<Rightarrow> 'a \<Rightarrow> jsnum) \<Rightarrow> 'a list \<Rightarrow> 'a list" where
  "sortBy cmp [] = []"
| "sortBy cmp (x # xs) = insertSorted cmp x (sortBy cmp xs)"

text \<open>The comparator \<open>(a, b) => b.score - a.score\<close> of lines 50, 84 and 107.\<close>

definition byScoreDesc :: "LeaderboardEntry \<Rightarrow> LeaderboardEntry \<Rightarrow> jsnum" where
  "byScoreDesc a b = jsub (score b) (score a)"

text \<open>A snapshot is in descending (non-strict) score order: \<open>b.score <= a.score\<close> for
  every entry \<open>a\<close> in front of an entry \<open>b\<close>.\<close>

definition sortedDesc :: "LeaderboardEntry list \<Rightarrow> bool" where
  "sortedDesc xs = sorted_wrt (\<lambda>a b. jle (score b) (score a)) xs"


section \<open>The random source and the name pool\<close>

text \<open>
  \<open>Math.random()\<close> is an injected source \<open>rnd :: nat \<Rightarrow> real\<close>: the \<open>n\<close>-th call
  returns the number \<open>Num (rnd n)\<close>, and every function that draws takes the number of
  calls made so far and returns the new count. \<open>FICTIONAL_USERNAMES\<close> is the parameter
  \<open>pool\<close>.
\<close>

text \<open>\<open>FICTIONAL_USERNAMES[Math.floor(u * FICTIONAL_USERNAMES.length)]\<close>, the product
  rounded as the code rounds it; out of range the read is \<open>undefined\<close>.\<close>

definition pickName :: "string list \<Rightarrow> real \<Rightarrow> string option" where
  "pickName pool u = jsIndex pool (jfloor (jmul (Num u) (Num (real (length pool)))))"

section \<open>generateLeaderboardEntries (lines 26-51)\<close>

text \<open>The \<open>while (usedNames.has(username))\<close> loop of lines 33-35. It may run forever, so
  it returns an option, \<open>None\<close> when it does not return.\<close>

partial_function (option) redrawName ::
  "string list \<Rightarrow> (nat \<Rightarrow> real) \<Rightarrow> string option set \<Rightarrow> string option \<Rightarrow> nat
     \<Rightarrow> (string option \<times> nat) option" where
  "redrawName pool rnd usedNames uname pos =
     (if uname \<in> usedNames
      then redrawName pool rnd usedNames (pickName pool (rnd pos)) (pos + 1)
      else Some (uname, pos))"

declare redrawName.simps [code]

text \<open>Lines 32-36: the first draw, then the loop.\<close>

definition drawName ::
  "string list \<Rightarrow> (nat \<Rightarrow> real) \<Rightarrow> string option set \<Rightarrow> nat
     \<Rightarrow> (string option \<times> nat) option" where
  "drawName pool rnd usedNames pos =
     redrawName pool rnd usedNames (pickName pool (rnd pos)) (pos + 1)"

text \<open>Lines 39-47: the entry pushed by one iteration, from the name and the two draws
  \<open>u\<close> (score) and \<open>v\<close> (flag).\<close>

definition makeEntry :: "jsnum \<Rightarrow> string option \<Rightarrow> real \<Rightarrow> real \<Rightarrow> LeaderboardEntry" where
  "makeEntry playerScore uname u v =
     (let baseScore = (if jlt (Num 100) playerScore then playerScore else Num 500);
          variance = jmul baseScore (fl (8 / 10));
          randomScore = jfloor (jadd baseScore (jmul (jsub (Num u) (fl (3 / 10))) variance))
      in \<lparr>username = uname, score = jmax (Num 50) randomScore,
          isNew = jlt (fl (7 / 10)) (Num v)\<rparr>)"

text \<open>The \<open>for\<close> loop of lines 31-48, by the number of iterations left.\<close>

fun generateLoop ::
  "string list \<Rightarrow> (nat \<Rightarrow> real) \<Rightarrow> jsnum \<Rightarrow> nat \<Rightarrow> LeaderboardEntry list
     \<Rightarrow> string option set \<Rightarrow> nat \<Rightarrow> (LeaderboardEntry list \<times> nat) option" where
  "generateLoop pool rnd playerScore 0 entries usedNames pos = Some (entries, pos)"
| "generateLoop pool rnd playerScore (Suc n) entries usedNames pos =
     (case drawName pool rnd usedNames pos of
        None \<Rightarrow> None
      | Some (uname, pos1) \<Rightarrow>
          generateLoop pool rnd playerScore n
            (entries @ [makeEntry playerScore uname (rnd pos1) (rnd (pos1 + 1))])
            (insert uname usedNames) (pos1 + 2))"

definition generateLeaderboardEntries ::
  "string list \<Rightarrow> (nat \<Rightarrow> real) \<Rightarrow> nat \<Rightarrow> jsnum \<Rightarrow> (LeaderboardEntry list \<times> nat) option" where
  "generateLeaderboardEntries pool rnd pos playerScore =
     (case generateLoop pool rnd playerScore 15 [] {} pos of
        None \<Rightarrow> None
      | Some (entries, pos') \<Rightarrow> Some (sortBy byScoreDesc entries, pos'))"

section \<open>The GameOverlay component\<close>

text \<open>The props the leaderboard code reads. The prop \<open>score\<close> is written \<open>scoreProp\<close>,
  the name \<open>score\<close> being the field of an entry.\<close>

record Props =
  status :: GameStatus
  scoreProp :: jsnum
  highScore :: jsnum

text \<open>
  The component's own state: the two \<open>useState\<close> cells, the \<open>useRef\<close> cell, the props
  of the last render, and the number of \<open>Math.random()\<close> calls made so far.
\<close>

record Overlay =
  props :: Props
  leaderboard :: "LeaderboardEntry list"
  visibleStartIndex :: int
  leaderboardRef :: "LeaderboardEntry list"
  calls :: nat

text \<open>Lines 78-82.\<close>

definition playerEntry :: "jsnum \<Rightarrow> LeaderboardEntry" where
  "playerEntry sc = \<lparr>username = Some ''YOU'', score = sc, isNew = True\<rparr>"

text \<open>The effect of lines 70-88, run after a render whose \<open>status\<close>, \<open>score\<close> or
  \<open>highScore\<close> differs from the previous render's.\<close>

definition seedEffect :: "string list \<Rightarrow> (nat \<Rightarrow> real) \<Rightarrow> Overlay \<Rightarrow> Overlay option" where
  "seedEffect pool rnd s =
     (if status (props s) = PLAYING then
        (case generateLeaderboardEntries pool rnd (calls s) (scoreProp (props s)) of
           None \<Rightarrow> None
         | Some (generated, c) \<Rightarrow>
             Some (s\<lparr>leaderboardRef := generated, leaderboard := generated, calls := c\<rparr>))
      else if status (props s) = GAME_OVER then
        (case generateLeaderboardEntries pool rnd (calls s)
                (jmax (scoreProp (props s)) (highScore (props s))) of
           None \<Rightarrow> None
         | Some (generated, c) \<Rightarrow>
             (let entries = sortBy byScoreDesc (generated @ [playerEntry (scoreProp (props s))])
              in Some (s\<lparr>leaderboardRef := entries, leaderboard := entries, calls := c\<rparr>)))
      else Some s)"

text \<open>The first render: the initial values of lines 65-67, then the effect.\<close>

definition mount :: "string list \<Rightarrow> (nat \<Rightarrow> real) \<Rightarrow> nat \<Rightarrow> Props \<Rightarrow> Overlay option" where
  "mount pool rnd c p =
     seedEffect pool rnd
       \<lparr>props = p, leaderboard = [], visibleStartIndex = 0, leaderboardRef = [], calls = c\<rparr>"

text \<open>A later render with props \<open>p\<close>: the effect runs when a dependency changed, the
  dependencies being compared with \<open>Object.is\<close>.\<close>

definition render :: "string list \<Rightarrow> (nat \<Rightarrow> real) \<Rightarrow> Overlay \<Rightarrow> Props \<Rightarrow> Overlay option" where
  "render pool rnd s p =
     (if p \<noteq> props s then seedEffect pool rnd (s\<lparr>props := p\<rparr>) else Some s)"

text \<open>Lines 106-107: the new entry in front of the first 14 of the store, sorted.\<close>

definition insertLive :: "LeaderboardEntry \<Rightarrow> LeaderboardEntry list \<Rightarrow> LeaderboardEntry list" where
  "insertLive newEntry store = sortBy byScoreDesc (newEntry # take 14 store)"

text \<open>Line 113; \<open>smod\<close> is the remainder of JavaScript's \<open>%\<close> on integers.\<close>

definition rotate :: "Overlay \<Rightarrow> Overlay" where
  "rotate s =
     s\<lparr>visibleStartIndex :=
          (visibleStartIndex s + 1) smod max 1 (int (length (leaderboardRef s)) - 3)\<rparr>"

text \<open>Lines 98-104: the entry a tick synthesizes, from the second and third draw of the
  tick.\<close>

definition liveEntry :: "string list \<Rightarrow> (nat \<Rightarrow> real) \<Rightarrow> Overlay \<Rightarrow> LeaderboardEntry" where
  "liveEntry pool rnd s =
     (let newUsername = pickName pool (rnd (calls s + 1));
          newScore = jfloor (jmul (scoreProp (props s))
                               (jadd (Num (1 / 2)) (Num (rnd (calls s + 2)))))
      in \<lparr>username = newUsername, score = jmax (Num 50) newScore, isNew = True\<rparr>)"

text \<open>The interval callback of lines 94-114. The interval exists only while the status
  is \<open>PLAYING\<close> (line 92), which \<open>step\<close> below checks.\<close>

definition tick :: "string list \<Rightarrow> (nat \<Rightarrow> real) \<Rightarrow> Overlay \<Rightarrow> Overlay" where
  "tick pool rnd s =
     (if jlt (Num (1 / 2)) (Num (rnd (calls s))) then
        (let store = insertLive (liveEntry pool rnd s) (leaderboardRef s)
         in rotate (s\<lparr>leaderboardRef := store, leaderboard := store, calls := calls s + 3\<rparr>))
      else rotate (s\<lparr>calls := calls s + 1\<rparr>))"

text \<open>What can happen to a mounted component: a render with new props, or the interval
  firing.\<close>

datatype event = Render Props | Tick

definition step :: "string list \<Rightarrow> (nat \<Rightarrow> real) \<Rightarrow> Overlay \<Rightarrow> event \<Rightarrow> Overlay option" where
  "step pool rnd s ev =
     (case ev of
        Render p \<Rightarrow> render pool rnd s p
      | Tick \<Rightarrow> (if status (props s) = PLAYING then Some (tick pool rnd s) else Some s))"

fun run :: "string list \<Rightarrow> (nat \<Rightarrow> real) \<Rightarrow> Overlay \<Rightarrow> event list \<Rightarrow> Overlay option" where
  "run pool rnd s [] = Some s"
| "run pool rnd s (ev # evs) =
     (case step pool rnd s ev of None \<Rightarrow> None | Some s' \<Rightarrow> run pool rnd s' evs)"

section \<open>Rank and milestone (lines 343 and 128-135)\<close>

text \<open>\<open>Array.prototype.findIndex\<close>: the index of the first element satisfying the
  predicate, \<open>-1\<close> when there is none.\<close>

fun findIndexFrom :: "('a \<Rightarrow> bool) \<Rightarrow> 'a list \<Rightarrow> int \<Rightarrow> int" where
  "findIndexFrom P [] i = - 1"
| "findIndexFrom P (x # xs) i = (if P x then i else findIndexFrom P xs (i + 1))"

definition findIndex :: "('a \<Rightarrow> bool) \<Rightarrow> 'a list \<Rightarrow> int" where
  "findIndex P xs = findIndexFrom P xs 0"

definition playerRank :: "LeaderboardEntry list \<Rightarrow> int" where
  "playerRank lb = findIndex (\<lambda>entry. username entry = Some ''YOU'') lb + 1"



section \<open>Predicates of the statements\<close>

text \<open>
  A source is fair for a pool when every index of the pool is drawn again after every
  point, the index being the one the code computes,
  \<open>Math.floor(Math.random() * FICTIONAL_USERNAMES.length)\<close>: what a genuinely random
  source does with probability one. A source is a unit source when every draw is in
  \<open>[0, 1)\<close>, as \<open>Math.random()\<close> promises.
\<close>

definition fairSource :: "string list \<Rightarrow> (nat \<Rightarrow> real) \<Rightarrow> bool" where
  "fairSource pool rnd =
     (\<forall>p. \<forall>i<length pool. \<exists>q\<ge>p.
        jfloor (jmul (Num (rnd q)) (Num (real (length pool)))) = Num (real i))"

definition unitSource :: "(nat \<Rightarrow> real) \<Rightarrow> bool" where
  "unitSource rnd = (\<forall>n. 0 \<le> rnd n \<and> rnd n < 1)"

text \<open>Props whose \<open>score\<close> and \<open>highScore\<close> are finite numbers, and an event that, if a
  render, has such props.\<close>

definition finiteProps :: "Props \<Rightarrow> bool" where
  "finiteProps p =
     (isFin (scoreProp p) \<and> jsNumber (scoreProp p) \<and> isFin (highScore p) \<and> jsNumber (highScore p))"

fun finiteEvent :: "event \<Rightarrow> bool" where
  "finiteEvent (Render p) = finiteProps p"
| "finiteEvent Tick = True"

text \<open>The component from its first render on: mounted with props \<open>p\<close> when \<open>c\<close> calls
  of the random source have been made, then the events in order.\<close>

definition start ::
  "string list \<Rightarrow> (nat \<Rightarrow> real) \<Rightarrow> nat \<Rightarrow> Props \<Rightarrow> event list \<Rightarrow> Overlay option" where
  "start pool rnd c p evs =
     (case mount pool rnd c p of None \<Rightarrow> None | Some s0 \<Rightarrow> run pool rnd s0 evs)"

text \<open>What holds of every state of the component, whatever the props: the published
  leaderboard is the store, the window start is in \<open>{0..<12}\<close>, and while playing the
  store has 15 entries.\<close>

definition wellFormed :: "Overlay \<Rightarrow> bool" where
  "wellFormed s =
     (leaderboard s = leaderboardRef s
      \<and> 0 \<le> visibleStartIndex s \<and> visibleStartIndex s < 12
      \<and> (status (props s) = PLAYING \<longrightarrow> length (leaderboardRef s) = 15))"

text \<open>What holds of every state when the props have been finite throughout: the store
  is sorted, every score is one the comparator orders, and every entry is at least 50 or
  is a player entry; while playing, every entry is at least 50.\<close>

definition scoresOk :: "Overlay \<Rightarrow> bool" where
  "scoresOk s =
     (finiteProps (props s) \<and> sortedDesc (leaderboardRef s)
      \<and> (\<forall>e\<in>set (leaderboardRef s).
            sortable (score e) \<and> (jle (Num 50) (score e) \<or> e = playerEntry (score e)))
      \<and> (status (props s) = PLAYING \<longrightarrow> (\<forall>e\<in>set (leaderboardRef s). jle (Num 50) (score e))))"

text \<open>The modulus of line 113, \<open>Math.max(1, leaderboardRef.current.length - 3)\<close>.\<close>

definition windowPeriod :: "Overlay \<Rightarrow> nat" where
  "windowPeriod s = nat (max 1 (int (length (leaderboardRef s)) - 3))"

section \<open>Concrete inputs\<close>

text \<open>A pool of 15 distinct names, and a source of doubles in \<open>[0, 1)\<close> that walks
  through the indices of the pool in steps of 7: the draw \<open>(17 i + 8) / 256\<close> gives the
  index \<open>i\<close>.\<close>

definition pool15 :: "string list" where
  "pool15 = [''Ada'', ''Bo'', ''Cy'', ''Dee'', ''Eve'', ''Fox'', ''Gus'', ''Hal'',
             ''Ivy'', ''Jax'', ''Kit'', ''Leo'', ''Max'', ''Neo'', ''Oz'']"

definition rnd15 :: "nat \<Rightarrow> real" where
  "rnd15 n = (17 * real ((7 * n) mod 15) + 8) / 256"

text \<open>A source that is constantly one half, and one that is constantly one quarter.\<close>

definition rndHalf :: "nat \<Rightarrow> real" where
  "rndHalf n = 1 / 2"

definition rndQuarter :: "nat \<Rightarrow> real" where
  "rndQuarter n = 1 / 4"

text \<open>A snapshot of 15 entries in descending order.\<close>

definition store15 :: "LeaderboardEntry list" where
  "store15 =
     [\<lparr>username = Some ''Hal'', score = Num 1528, isNew = False\<rparr>,
      \<lparr>username = Some ''Gus'', score = Num 1475, isNew = False\<rparr>,
      \<lparr>username = Some ''Fox'', score = Num 1422, isNew = False\<rparr>,
      \<lparr>username = Some ''Eve'', score = Num 1369, isNew = False\<rparr>,
      \<lparr>username = Some ''Dee'', score = Num 1316, isNew = False\<rparr>,
      \<lparr>username = Some ''Cy'', score = Num 1263, isNew = False\<rparr>,
      \<lparr>username = Some ''Bo'', score = Num 1210, isNew = False\<rparr>,
      \<lparr>username = Some ''Ada'', score = Num 1156, isNew = True\<rparr>,
      \<lparr>username = Some ''Oz'', score = Num 1103, isNew = True\<rparr>,
      \<lparr>username = Some ''Neo'', score = Num 1050, isNew = True\<rparr>,
      \<lparr>username = Some ''Max'', score = Num 997, isNew = True\<rparr>,
      \<lparr>username = Some ''Leo'', score = Num 944, isNew = False\<rparr>,
      \<lparr>username = Some ''Kit'', score = Num 891, isNew = False\<rparr>,
      \<lparr>username = Some ''Jax'', score = Num 838, isNew = False\<rparr>,
      \<lparr>username = Some ''Ivy'', score = Num 785, isNew = False\<rparr>]"

text \<open>Props of a session: on the menu, playing from score 0, the game over at 800 after a
  high score of 500, the next run; and a run that ends at score 10.\<close>

definition pMenu :: Props where
  "pMenu = \<lparr>status = MENU, scoreProp = Num 0, highScore = Num 500\<rparr>"

definition pPlay :: Props where
  "pPlay = \<lparr>status = PLAYING, scoreProp = Num 0, highScore = Num 500\<rparr>"

definition pOver800 :: Props where
  "pOver800 = \<lparr>status = GAME_OVER, scoreProp = Num 800, highScore = Num 500\<rparr>"

definition pAgain :: Props where
  "pAgain = \<lparr>status = PLAYING, scoreProp = Num 0, highScore = Num 800\<rparr>"

definition pPlay10 :: Props where
  "pPlay10 = \<lparr>status = PLAYING, scoreProp = Num 10, highScore = Num 500\<rparr>"

definition pOver10 :: Props where
  "pOver10 = \<lparr>status = GAME_OVER, scoreProp = Num 10, highScore = Num 500\<rparr>"

text \<open>A playing state whose store is the first \<open>n\<close> entries of \<open>store15\<close> and whose
  window starts at \<open>v\<close>.\<close>

definition sWindow :: "nat \<Rightarrow> int \<Rightarrow> Overlay" where
  "sWindow n v = \<lparr>props = \<lparr>status = PLAYING, scoreProp = Num 1000, highScore = Num 500\<rparr>,
                  leaderboard = take n store15, visibleStartIndex = v,
                  leaderboardRef = take n store15, calls = 47\<rparr>"


section \<open>Rounding\<close>

lemma pow2_powi: "pow2 k = 2 powi k"
  by (simp add: pow2_def power_int_def power_inverse field_simps)

lemma pow2_pos: "0 < pow2 k"
  by (simp add: pow2_powi)

lemma pow2_diff: "pow2 (a - b) = pow2 a / pow2 b"
  by (simp add: pow2_powi power_int_diff)

lemma pow2_mono: "a \<le> b \<Longrightarrow> pow2 a \<le> pow2 b"
  by (simp add: pow2_powi power_int_increasing)

lemma pow2_nat: "pow2 (int n) = 2 ^ n"
  by (simp add: pow2_def)

lemma expo_lower:
  assumes "0 < a"
  shows "pow2 (expo a) \<le> a"
proof (cases "1 \<le> a")
  case True
  then have n: "0 < \<lfloor>a\<rfloor>" by simp
  from bitlen_bounds [OF n] have b: "(2::int) ^ nat (bitlen \<lfloor>a\<rfloor> - 1) \<le> \<lfloor>a\<rfloor>" by simp
  from n have ge: "0 \<le> bitlen \<lfloor>a\<rfloor> - 1" by (simp add: bitlen_alt_def)
  have "pow2 (expo a) = 2 ^ nat (bitlen \<lfloor>a\<rfloor> - 1)"
    using True ge by (simp add: expo_def pow2_def)
  also have "\<dots> = real_of_int (2 ^ nat (bitlen \<lfloor>a\<rfloor> - 1))" by simp
  also have "\<dots> \<le> real_of_int \<lfloor>a\<rfloor>" using b by (rule of_int_le_iff [THEN iffD2])
  also have "\<dots> \<le> a" by simp
  finally show ?thesis .
next
  case False
  with assms have y: "1 < 1 / a" by (simp add: field_simps)
  let ?m = "\<lceil>1 / a\<rceil>"
  let ?k = "bitlen (?m - 1)"
  from y have m: "0 < ?m - 1" by (simp add: less_ceiling_iff)
  from bitlen_bounds [OF m] have "?m - 1 < 2 ^ nat ?k" by simp
  then have "?m \<le> 2 ^ nat ?k" by simp
  then have mk: "real_of_int ?m \<le> real_of_int (2 ^ nat ?k)" by (rule of_int_le_iff [THEN iffD2])
  have "1 / a \<le> real_of_int ?m" by (rule le_of_int_ceiling)
  also note mk
  also have "real_of_int (2 ^ nat ?k) = 2 ^ nat ?k" by simp
  finally have "1 / a \<le> 2 ^ nat ?k" .
  with assms have le: "1 / 2 ^ nat ?k \<le> a" by (simp add: field_simps)
  have k: "0 \<le> ?k" by (rule bitlen_nonneg)
  have "pow2 (expo a) = pow2 (- ?k)" using False by (simp add: expo_def)
  also have "\<dots> = 1 / 2 ^ nat ?k"
    using k by (cases "?k = 0") (simp_all add: pow2_def)
  finally show ?thesis using le by simp
qed

lemma roundHalfEven_bounds:
  "real_of_int (roundHalfEven y) \<le> y + 1 / 2" "y - 1 / 2 \<le> real_of_int (roundHalfEven y)"
  "\<lfloor>y\<rfloor> \<le> roundHalfEven y"
  unfolding roundHalfEven_def by (auto simp: not_less) linarith+

lemma quantum_pos: "0 < quantum a"
  by (simp add: quantum_def pow2_pos)

lemma quantum_le:
  assumes "0 < a"
  shows "quantum a \<le> max (a / 2 ^ 52) (pow2 (- 1074))"
proof (cases "- 1022 \<le> expo a")
  case True
  have "pow2 52 = 2 ^ 52" by (simp add: pow2_def)
  with True have "quantum a = pow2 (expo a) / 2 ^ 52"
    by (simp add: quantum_def max_def pow2_diff)
  also have "\<dots> \<le> a / 2 ^ 52" using expo_lower [OF assms] by (simp add: divide_right_mono)
  finally show ?thesis by simp
next
  case False
  then have "quantum a = pow2 (- 1074)" by (simp add: quantum_def max_def)
  then show ?thesis by simp
qed

lemma nearest_upper:
  assumes "0 < a"
  shows "nearest a \<le> a + quantum a / 2"
proof -
  have "real_of_int (roundHalfEven (a / quantum a)) \<le> a / quantum a + 1 / 2"
    by (rule roundHalfEven_bounds)
  then have "real_of_int (roundHalfEven (a / quantum a)) * quantum a
               \<le> (a / quantum a + 1 / 2) * quantum a"
    using quantum_pos [of a] by (simp add: mult_right_mono)
  also have "\<dots> = a + quantum a / 2"
    using quantum_pos [of a] by (simp add: field_simps)
  finally show ?thesis by (simp add: nearest_def)
qed

lemma nearest_nonneg:
  assumes "0 \<le> a"
  shows "0 \<le> nearest a"
proof -
  from assms quantum_pos [of a] have "0 \<le> a / quantum a" by simp
  then have "0 \<le> \<lfloor>a / quantum a\<rfloor>" by simp
  with roundHalfEven_bounds(3) [of "a / quantum a"]
  have "0 \<le> roundHalfEven (a / quantum a)" by linarith
  with quantum_pos [of a] show ?thesis by (simp add: nearest_def)
qed

lemma nearest_pos:
  assumes "pow2 (- 1074) \<le> a"
  shows "0 < nearest a"
proof -
  from assms pow2_pos [of "- 1074"] have a: "0 < a" by linarith
  from quantum_le [OF a] have "quantum a \<le> a"
  proof -
    have "a / 2 ^ 52 \<le> a" using a by (simp add: field_simps)
    with assms \<open>quantum a \<le> max (a / 2 ^ 52) (pow2 (- 1074))\<close> show ?thesis by (simp add: max_def split: if_splits)
  qed
  with quantum_pos [of a] have "1 \<le> a / quantum a" by (simp add: field_simps)
  then have "1 \<le> \<lfloor>a / quantum a\<rfloor>" by simp
  with roundHalfEven_bounds(3) [of "a / quantum a"] have "1 \<le> roundHalfEven (a / quantum a)" by linarith
  then have "0 < real_of_int (roundHalfEven (a / quantum a))" by simp
  with quantum_pos [of a] show ?thesis by (simp add: nearest_def)
qed

lemma fl_not_NaN [simp]: "fl x \<noteq> NaN"
  by (simp add: fl_def)

lemma fl_pos:
  assumes "pow2 (- 1074) \<le> x"
  shows "fl x = PosInf \<or> (\<exists>r>0. fl x = Num r)"
proof -
  from assms pow2_pos [of "- 1074"] have x: "0 < x" by linarith
  from nearest_pos [of x] assms have "0 < nearest x" by simp
  with x show ?thesis by (simp add: fl_def)
qed

lemma fl_neg:
  assumes "x \<le> - pow2 (- 1074)"
  shows "fl x = NegInf \<or> (\<exists>r<0. fl x = Num r)"
proof -
  from assms pow2_pos [of "- 1074"] have x: "x < 0" by linarith
  from nearest_pos [of "- x"] assms have "0 < nearest (- x)" by simp
  with x show ?thesis by (simp add: fl_def)
qed

lemma fl_isFin:
  assumes "\<bar>x\<bar> \<le> 9 / 10 * 2 ^ 1024"
  shows "isFin (fl x)"
proof (cases "x = 0")
  case True
  then show ?thesis by (simp add: fl_def)
next
  case False
  then have a: "0 < \<bar>x\<bar>" by simp
  have small: "pow2 (- 1074) \<le> 1" by (simp add: pow2_def)
  from quantum_le [OF a] have "quantum \<bar>x\<bar> \<le> max (\<bar>x\<bar> / 2 ^ 52) 1"
    using small by (simp add: max_def split: if_splits)
  with nearest_upper [OF a] have "nearest \<bar>x\<bar> \<le> \<bar>x\<bar> + max (\<bar>x\<bar> / 2 ^ 52) 1 / 2" by linarith
  also have "\<dots> < 2 ^ 1024"
  proof -
    have "\<bar>x\<bar> / 2 ^ 52 \<le> 9 / 10 * 2 ^ 1024 / 2 ^ 52" using assms by (simp add: divide_right_mono)
    then have "max (\<bar>x\<bar> / 2 ^ 52) 1 \<le> (9 / 10 * 2 ^ 1024 / 2 ^ 52 :: real)" by simp
    with assms show ?thesis by simp
  qed
  finally have "\<not> 2 ^ 1024 \<le> nearest \<bar>x\<bar>" by simp
  then show ?thesis by (simp add: fl_def)
qed

section \<open>Doubles and their order\<close>

lemmas fl_eval = fl_def nearest_def quantum_def roundHalfEven_def expo_def pow2_def compute_bitlen

lemma onGrid_0 [simp]: "onGrid 0"
  unfolding onGrid_def by (rule exI [of _ 0]) simp

lemma onGrid_int [simp]: "onGrid (of_int k)"
proof -
  have "pow2 (- 1074) * 2 ^ 1074 = 1" by (simp add: pow2_def)
  then have "real_of_int k = of_int (k * 2 ^ 1074) * pow2 (- 1074)"
    by (simp add: mult.assoc mult.commute)
  then show ?thesis unfolding onGrid_def by (rule exI)
qed

lemma onGrid_minus: "onGrid x \<Longrightarrow> onGrid (- x)"
  unfolding onGrid_def
proof -
  assume "\<exists>k::int. x = of_int k * pow2 (- 1074)"
  then obtain k :: int where "x = of_int k * pow2 (- 1074)" by blast
  then have "- x = of_int (- k) * pow2 (- 1074)" by simp
  then show "\<exists>k::int. - x = of_int k * pow2 (- 1074)" by (rule exI)
qed

lemma onGrid_gap:
  assumes "onGrid x" and "onGrid y" and "x \<noteq> y"
  shows "pow2 (- 1074) \<le> \<bar>x - y\<bar>"
proof -
  from assms(1,2) obtain k l :: int where
    x: "x = of_int k * pow2 (- 1074)" and y: "y = of_int l * pow2 (- 1074)"
    unfolding onGrid_def by blast
  from assms(3) x y have "k \<noteq> l" by auto
  then have "1 \<le> \<bar>k - l\<bar>" by simp
  then have "1 \<le> \<bar>real_of_int k - real_of_int l\<bar>" by linarith
  then have "1 * pow2 (- 1074) \<le> \<bar>real_of_int k - real_of_int l\<bar> * pow2 (- 1074)"
    using pow2_pos [of "- 1074"] by (simp only: mult_le_cancel_right) simp
  also have "\<dots> = \<bar>x - y\<bar>"
    unfolding x y using pow2_pos [of "- 1074"]
    by (simp add: abs_mult left_diff_distrib [symmetric])
  finally show ?thesis by simp
qed

lemma isDouble_onGrid:
  assumes "isDouble r"
  shows "onGrid r"
proof -
  from assms obtain m e :: int where e: "- 1074 \<le> e" and r: "r = of_int m * pow2 e"
    unfolding isDouble_def by blast
  have "pow2 e = pow2 (e + 1074) * pow2 (- 1074)"
    using pow2_diff [of "e + 1074" 1074] pow2_pos [of 1074]
    by (simp add: pow2_def field_simps)
  moreover have "pow2 (e + 1074) = real_of_int (2 ^ nat (e + 1074))"
    using e by (simp add: pow2_def)
  ultimately have "r = of_int (m * 2 ^ nat (e + 1074)) * pow2 (- 1074)"
    unfolding r by simp
  then show ?thesis unfolding onGrid_def by (rule exI)
qed

lemma isDouble_bound:
  assumes "isDouble r"
  shows "\<bar>r\<bar> \<le> 2 ^ 1024"
proof -
  from assms obtain m e :: int where m: "\<bar>m\<bar> < 2 ^ 53" and e: "e \<le> 971"
    and r: "r = of_int m * pow2 e"
    unfolding isDouble_def by blast
  from m have "\<bar>m\<bar> \<le> 2 ^ 53" by simp
  then have "real_of_int \<bar>m\<bar> \<le> real_of_int (2 ^ 53)" by (rule of_int_le_iff [THEN iffD2])
  then have "\<bar>real_of_int m\<bar> \<le> 2 ^ 53" by simp
  moreover have "pow2 e \<le> pow2 971" using e by (rule pow2_mono)
  moreover have "pow2 971 = 2 ^ 971" by (simp add: pow2_def)
  ultimately have "\<bar>real_of_int m\<bar> * pow2 e \<le> 2 ^ 53 * 2 ^ 971"
    using pow2_pos [of e] by (intro mult_mono) simp_all
  also have "\<dots> = (2::real) ^ 1024" by (simp add: power_add [symmetric])
  finally show ?thesis
    unfolding r using pow2_pos [of e] by (simp add: abs_mult)
qed

lemma isDouble_int: "\<bar>k\<bar> < 2 ^ 53 \<Longrightarrow> isDouble (of_int k)"
  unfolding isDouble_def
  by (rule exI [of _ k], rule exI [of _ 0]) (simp add: pow2_def)

lemma jsNumber_sortable: "jsNumber x \<Longrightarrow> x \<noteq> NaN \<Longrightarrow> sortable x"
  by (cases x) (simp_all add: jsNumber_def sortable_def isDouble_onGrid)

text \<open>The order of the numbers: \<open><=\<close> is reflexive but for \<open>NaN\<close>, and transitive.\<close>

lemma jle_refl: "a \<noteq> NaN \<Longrightarrow> jle a a"
  by (cases a) (simp_all add: jle_def jlt_def)

lemma jle_trans: "jle a b \<Longrightarrow> jle b c \<Longrightarrow> jle a c"
  by (cases a; cases b; cases c) (simp_all add: jle_def jlt_def)

lemma jlt_jle: "jlt a b \<Longrightarrow> jle a b"
  by (cases a; cases b) (simp_all add: jle_def jlt_def)

lemma not_jlt_jle: "a \<noteq> NaN \<Longrightarrow> b \<noteq> NaN \<Longrightarrow> \<not> jlt a b \<Longrightarrow> jle b a"
  by (simp add: jle_def)

lemma jlt_not_jle: "jlt a b \<Longrightarrow> \<not> jle b a"
  by (simp add: jle_def)

lemma jle_jlt_trans: "jle a b \<Longrightarrow> jlt b c \<Longrightarrow> jlt a c"
  by (cases a; cases b; cases c) (simp_all add: jle_def jlt_def)

lemma jlt_jle_trans: "jlt a b \<Longrightarrow> jle b c \<Longrightarrow> jlt a c"
  by (cases a; cases b; cases c) (simp_all add: jle_def jlt_def)

lemma jlt_irrefl [simp]: "\<not> jlt a a"
  by (cases a) (simp_all add: jlt_def)

text \<open>The sign of a difference of two numbers that the comparator orders is the order of
  the numbers: the difference of two distinct multiples of \<open>2 ^ -1074\<close> does not round to
  zero.\<close>

lemma isFin_jneg [simp]: "isFin (jneg a) = isFin a"
  by (cases a) simp_all

lemma val_jneg [simp]: "val (jneg a) = - val a"
  by (cases a) simp_all

lemma jneg_NaN [simp]: "jneg a = NaN \<longleftrightarrow> a = NaN"
  by (cases a) simp_all

lemma jlt_zero_fl:
  assumes "pow2 (- 1074) \<le> \<bar>d\<bar>"
  shows "jlt (Num 0) (fl d) \<longleftrightarrow> 0 < d"
proof (cases "0 < d")
  case True
  with assms fl_pos [of d] show ?thesis by (auto simp: jlt_def)
next
  case False
  with assms fl_neg [of d] show ?thesis by (auto simp: jlt_def)
qed

lemma comparator_sign:
  assumes "sortable a" and "sortable b"
  shows "jlt (Num 0) (jsub b a) \<longleftrightarrow> jlt a b"
proof (cases "isFin a \<and> isFin b")
  case True
  with assms have g: "onGrid (val a)" "onGrid (val b)" by (simp_all add: sortable_def)
  from True have nn: "a \<noteq> NaN" "b \<noteq> NaN" by auto
  show ?thesis
  proof (cases "val b = val a")
    case same: True
    with True nn show ?thesis by (simp add: jsub_def jadd_def jlt_def)
  next
    case False
    from onGrid_gap [OF g(2) g(1) False] have "pow2 (- 1074) \<le> \<bar>val b - val a\<bar>" .
    from jlt_zero_fl [OF this] True nn False show ?thesis
      by (simp add: jsub_def jadd_def) (simp add: jlt_def)
  qed
next
  case False
  with assms show ?thesis
    by (cases a; cases b) (simp_all add: sortable_def jsub_def jadd_def jlt_def)
qed

text \<open>The literals \<open>0.3\<close>, \<open>0.8\<close> and \<open>0.7\<close> of lines 40, 43 and 46.\<close>

lemma fl_03: "fl (3 / 10) = Num (5404319552844595 / 18014398509481984)"
  by (simp add: fl_eval)

lemma fl_08: "fl (8 / 10) = Num (3602879701896397 / 4503599627370496)"
  by (simp add: fl_eval)

lemma fl_07: "fl (7 / 10) = Num (3152519739159347 / 4503599627370496)"
  by (simp add: fl_eval)

section \<open>Scores and the sort\<close>

lemma fl_45: "fl (4 / 5) = Num (3602879701896397 / 4503599627370496)"
  using fl_08 by simp

lemma jadd_not_NaN: "a \<noteq> NaN \<Longrightarrow> b \<noteq> NaN \<Longrightarrow> isFin a \<or> isFin b \<Longrightarrow> jadd a b \<noteq> NaN"
  by (auto simp: jadd_def)

lemma jmul_fin_not_NaN: "isFin a \<Longrightarrow> isFin b \<Longrightarrow> jmul a b \<noteq> NaN"
  by (cases a; cases b) (auto simp: jmul_def)

lemma jmul_not_NaN: "a \<noteq> NaN \<Longrightarrow> isFin b \<Longrightarrow> val b \<noteq> 0 \<Longrightarrow> jmul a b \<noteq> NaN"
  by (cases a; cases b) (auto simp: jmul_def)

lemma jfloor_sortable: "x \<noteq> NaN \<Longrightarrow> sortable (jfloor x)"
  by (cases x) (auto simp: sortable_def onGrid_int onGrid_0)

lemma jmax_50: "x \<noteq> NaN \<Longrightarrow> jmax (Num 50) x = (if jlt (Num 50) x then x else Num 50)"
  by (auto simp: jmax_def)

lemma floor_50:
  assumes "sortable x"
  shows "sortable (jmax (Num 50) x) \<and> jle (Num 50) (jmax (Num 50) x)"
proof -
  from assms have n: "x \<noteq> NaN" by (simp add: sortable_def)
  have s50: "sortable (Num 50)" using onGrid_int [of 50] by (simp add: sortable_def)
  show ?thesis
  proof (cases "jlt (Num 50) x")
    case True
    with n assms jlt_jle [OF True] show ?thesis by (simp add: jmax_50)
  next
    case False
    with n s50 show ?thesis by (simp add: jmax_50 jle_refl)
  qed
qed

lemma score_makeEntry:
  assumes "jsNumber ps" and "ps \<noteq> PosInf"
  shows "sortable (score (makeEntry ps n u v)) \<and> jle (Num 50) (score (makeEntry ps n u v))"
proof -
  define base where "base = (if jlt (Num 100) ps then ps else Num 500)"
  have "\<exists>b. base = Num b \<and> 100 \<le> b \<and> b \<le> 2 ^ 1024"
  proof (cases "jlt (Num 100) ps")
    case False
    then show ?thesis by (simp add: base_def)
  next
    case True
    with assms(2) obtain r where r: "ps = Num r" "100 < r"
      by (cases ps) (auto simp: jlt_def)
    with assms(1) have "isDouble r" by (simp add: jsNumber_def)
    from isDouble_bound [OF this] have "r \<le> 2 ^ 1024" by simp
    with r True show ?thesis by (simp add: base_def)
  qed
  then obtain b where b: "base = Num b" "100 \<le> b" "b \<le> 2 ^ 1024" by blast
  let ?v8 = "3602879701896397 / 4503599627370496 :: real"
  have v: "jmul base (fl (8 / 10)) = fl (b * ?v8)"
    using b by (simp add: fl_45 jmul_def)
  have "b * ?v8 \<le> 2 ^ 1024 * ?v8" using b(3) by (intro mult_right_mono) simp_all
  also have "\<dots> \<le> 9 / 10 * 2 ^ 1024" by simp
  finally have "\<bar>b * ?v8\<bar> \<le> 9 / 10 * 2 ^ 1024" using b(2) by simp
  from fl_isFin [OF this] have fin: "isFin (fl (b * ?v8))" .
  have "pow2 (- 1074) \<le> pow2 0" by (rule pow2_mono) simp
  also have "\<dots> \<le> b * ?v8" using b(2) by (simp add: pow2_def)
  finally have "pow2 (- 1074) \<le> b * ?v8" .
  from fl_pos [OF this] fin obtain w where w: "fl (b * ?v8) = Num w" "0 < w" by auto
  let ?x1 = "jsub (Num u) (fl (3 / 10))"
  have x1: "?x1 \<noteq> NaN"
    unfolding jsub_def by (rule jadd_not_NaN) (simp_all add: fl_03)
  have x2: "jmul ?x1 (Num w) \<noteq> NaN"
    using x1 w(2) by (intro jmul_not_NaN) simp_all
  have x3: "jadd (Num b) (jmul ?x1 (Num w)) \<noteq> NaN"
    using x2 by (intro jadd_not_NaN) simp_all
  have "score (makeEntry ps n u v) = jmax (Num 50) (jfloor (jadd (Num b) (jmul ?x1 (Num w))))"
    using b(1) v w(1) by (simp add: makeEntry_def Let_def base_def fl_45)
  with floor_50 [OF jfloor_sortable [OF x3]] show ?thesis by simp
qed

lemma score_liveEntry:
  assumes "isFin (scoreProp (props s))" and "0 \<le> rnd (calls s + 2)" and "rnd (calls s + 2) < 1"
  shows "sortable (score (liveEntry pool rnd s)) \<and> jle (Num 50) (score (liveEntry pool rnd s))"
proof -
  let ?u = "rnd (calls s + 2)"
  have t: "jadd (Num (1 / 2)) (Num ?u) = fl (1 / 2 + ?u)"
    using assms(2) by (simp add: jadd_def)
  have "\<bar>1 / 2 + ?u\<bar> \<le> 9 / 10 * 2 ^ 1024" using assms(2,3) by simp
  from fl_isFin [OF this] have "isFin (fl (1 / 2 + ?u))" .
  with assms(1) have "jmul (scoreProp (props s)) (jadd (Num (1 / 2)) (Num ?u)) \<noteq> NaN"
    unfolding t by (rule jmul_fin_not_NaN)
  from floor_50 [OF jfloor_sortable [OF this]] show ?thesis
    by (simp add: liveEntry_def Let_def)
qed

lemma jmax_finite:
  assumes "isFin a" "jsNumber a" "isFin b" "jsNumber b"
  shows "jsNumber (jmax a b) \<and> jmax a b \<noteq> PosInf \<and> isFin (jmax a b)"
  using assms by (auto simp: jmax_def)

lemma mset_insertSorted: "mset (insertSorted cmp x xs) = add_mset x (mset xs)"
  by (induction xs) auto

lemma mset_sortBy: "mset (sortBy cmp xs) = mset xs"
  by (induction xs) (auto simp: mset_insertSorted)

lemma set_sortBy: "set (sortBy cmp xs) = set xs"
  using mset_sortBy [of cmp xs] by (metis set_mset_mset)

lemma length_sortBy: "length (sortBy cmp xs) = length xs"
  using mset_sortBy [of cmp xs] by (metis size_mset)

lemma set_insertSorted: "set (insertSorted cmp x xs) = insert x (set xs)"
  using mset_insertSorted [of cmp x xs] by (metis set_mset_add_mset_insert set_mset_mset)

lemma byScoreDesc_sign:
  "sortable (score x) \<Longrightarrow> sortable (score y) \<Longrightarrow>
   jlt (Num 0) (byScoreDesc x y) \<longleftrightarrow> jlt (score x) (score y)"
  unfolding byScoreDesc_def by (rule comparator_sign)

lemma sortedDesc_insertSorted:
  assumes "sortable (score x)" and "\<forall>e\<in>set xs. sortable (score e)" and "sortedDesc xs"
  shows "sortedDesc (insertSorted byScoreDesc x xs)"
  using assms(2,3)
proof (induction xs)
  case Nil
  show ?case by (simp add: sortedDesc_def)
next
  case (Cons y ys)
  from Cons.prems have sy: "sortable (score y)" and sys: "\<forall>e\<in>set ys. sortable (score e)"
    and below: "\<forall>z\<in>set ys. jle (score z) (score y)" and sorted: "sortedDesc ys"
    by (simp_all add: sortedDesc_def)
  show ?case
  proof (cases "jlt (score x) (score y)")
    case True
    from Cons.IH [OF sys sorted] have ih: "sortedDesc (insertSorted byScoreDesc x ys)" .
    from True byScoreDesc_sign [OF assms(1) sy]
    have eq: "insertSorted byScoreDesc x (y # ys) = y # insertSorted byScoreDesc x ys" by simp
    from jlt_jle [OF True] below ih show ?thesis
      unfolding eq by (simp add: sortedDesc_def set_insertSorted)
  next
    case False
    from False byScoreDesc_sign [OF assms(1) sy]
    have eq: "insertSorted byScoreDesc x (y # ys) = x # y # ys" by simp
    from assms(1) sy have "x \<noteq> x \<or> score x \<noteq> NaN" "score y \<noteq> NaN" by (simp_all add: sortable_def)
    with False have yx: "jle (score y) (score x)" by (simp add: not_jlt_jle)
    have "jle (score z) (score x)" if "z \<in> set ys" for z
      using below that yx jle_trans by blast
    with yx Cons.prems(2) show ?thesis
      unfolding eq by (simp add: sortedDesc_def)
  qed
qed

lemma sortedDesc_sortBy:
  "\<forall>e\<in>set xs. sortable (score e) \<Longrightarrow> sortedDesc (sortBy byScoreDesc xs)"
proof (induction xs)
  case Nil
  show ?case by (simp add: sortedDesc_def)
next
  case (Cons x xs)
  then show ?case by (simp add: sortedDesc_insertSorted set_sortBy)
qed

lemma sortedDesc_head:
  "sortedDesc (h # t) \<Longrightarrow> x \<in> set t \<Longrightarrow> jle (score x) (score h)"
  by (auto simp: sortedDesc_def)

text \<open>A score that is NaN is not in order with any other, nor with itself.\<close>

lemma sortedDesc_no_NaN:
  assumes "sortedDesc xs" and "2 \<le> length xs"
  shows "\<forall>e\<in>set xs. score e \<noteq> NaN"
proof
  fix e assume "e \<in> set xs"
  then obtain i where i: "i < length xs" "xs ! i = e" by (auto simp: in_set_conv_nth)
  from assms(2) obtain j where j: "j < length xs" "j \<noteq> i"
    by (cases "i = 0") (auto intro: that [of 1] that [of 0])
  from assms(1) have sw: "sorted_wrt (\<lambda>a b. jle (score b) (score a)) xs" by (simp add: sortedDesc_def)
  from j(2) consider "i < j" | "j < i" by linarith
  then show "score e \<noteq> NaN"
  proof cases
    case 1
    from sorted_wrt_nth_less [OF sw 1 j(1)] i(2) show ?thesis by (auto simp: jle_def)
  next
    case 2
    from sorted_wrt_nth_less [OF sw 2 i(1)] i(2) show ?thesis by (auto simp: jle_def)
  qed
qed




section \<open>Drawing names and generating entries\<close>

text \<open>What the loop returns when it returns: a name that is not used, drawn at some
  call, or the name it started with.\<close>

lemma redrawName_Some_aux:
  assumes "redrawName pool rnd usedNames uname pos = Some y"
  shows "fst y \<notin> usedNames \<and> pos \<le> snd y
         \<and> (fst y = uname \<and> snd y = pos
            \<or> (\<exists>q. pos \<le> q \<and> q < snd y \<and> fst y = pickName pool (rnd q)))"
  using assms
proof (induction rule: redrawName.raw_induct [rotated 1, consumes 1])
  case (1 f pool rnd usedNames uname pos y)
  show ?case
  proof (cases "uname \<in> usedNames")
    case True
    with 1(2) have rec: "f pool rnd usedNames (pickName pool (rnd pos)) (pos + 1) = Some y"
      by simp
    note ih = 1(1) [OF rec]
    from ih have a: "fst y \<notin> usedNames" and b: "pos + 1 \<le> snd y"
      by simp_all
    from ih have c: "fst y = pickName pool (rnd pos) \<and> snd y = pos + 1
              \<or> (\<exists>q. pos + 1 \<le> q \<and> q < snd y \<and> fst y = pickName pool (rnd q))"
      by simp
    from c have "\<exists>q. pos \<le> q \<and> q < snd y \<and> fst y = pickName pool (rnd q)"
    proof
      assume "fst y = pickName pool (rnd pos) \<and> snd y = pos + 1"
      then have "pos \<le> pos \<and> pos < snd y \<and> fst y = pickName pool (rnd pos)" by simp
      then show ?thesis by (rule exI)
    next
      assume "\<exists>q. pos + 1 \<le> q \<and> q < snd y \<and> fst y = pickName pool (rnd q)"
      then obtain q where "pos + 1 \<le> q" "q < snd y" "fst y = pickName pool (rnd q)" by blast
      then have "pos \<le> q \<and> q < snd y \<and> fst y = pickName pool (rnd q)" by simp
      then show ?thesis by (rule exI)
    qed
    with a b show ?thesis by simp
  next
    case False
    with 1(2) show ?thesis by auto
  qed
qed

lemma redrawName_stuck:
  assumes "redrawName pool rnd usedNames uname pos = Some y"
  shows "\<not> (uname \<in> usedNames \<and> (\<forall>q\<ge>pos. pickName pool (rnd q) \<in> usedNames))"
  using assms
proof (induction rule: redrawName.raw_induct [rotated 1, consumes 1])
  case (1 f pool rnd usedNames uname pos y)
  show ?case
  proof
    assume h: "uname \<in> usedNames \<and> (\<forall>q\<ge>pos. pickName pool (rnd q) \<in> usedNames)"
    with 1(2) have rec: "f pool rnd usedNames (pickName pool (rnd pos)) (pos + 1) = Some y"
      by simp
    from h have "pickName pool (rnd pos) \<in> usedNames
                 \<and> (\<forall>q\<ge>pos + 1. pickName pool (rnd q) \<in> usedNames)"
      by simp
    with 1(1) [OF rec] show False by simp
  qed
qed

lemma redrawName_None:
  assumes "uname \<in> usedNames" and "\<forall>q\<ge>pos. pickName pool (rnd q) \<in> usedNames"
  shows "redrawName pool rnd usedNames uname pos = None"
proof (cases "redrawName pool rnd usedNames uname pos")
  case None
  then show ?thesis .
next
  case (Some y)
  from redrawName_stuck [OF Some] assms show ?thesis by simp
qed

text \<open>The loop returns once a draw \<open>q\<close> gives an unused name.\<close>

lemma redrawName_returns:
  "pos \<le> q + 1 \<Longrightarrow> (pos = q + 1 \<longrightarrow> uname \<notin> usedNames) \<Longrightarrow> pickName pool (rnd q) \<notin> usedNames
   \<Longrightarrow> \<exists>r. redrawName pool rnd usedNames uname pos = Some r"
proof (induction "q + 1 - pos" arbitrary: uname pos)
  case 0
  then have "uname \<notin> usedNames" by simp
  then show ?case by (subst redrawName.simps) simp
next
  case (Suc d)
  show ?case
  proof (cases "uname \<in> usedNames")
    case False
    then show ?thesis by (subst redrawName.simps) simp
  next
    case True
    with Suc.prems have le: "pos \<le> q" by (cases "pos = q + 1") auto
    have "\<exists>r. redrawName pool rnd usedNames (pickName pool (rnd pos)) (pos + 1) = Some r"
    proof (rule Suc.hyps(1))
      show "d = q + 1 - (pos + 1)" using Suc.hyps(2) by simp
      show "pos + 1 \<le> q + 1" using le by simp
      show "pos + 1 = q + 1 \<longrightarrow> pickName pool (rnd pos) \<notin> usedNames"
        using Suc.prems(3) by auto
      show "pickName pool (rnd q) \<notin> usedNames" by (rule Suc.prems(3))
    qed
    with True show ?thesis by (subst redrawName.simps) simp
  qed
qed

lemma drawName_Some:
  assumes "drawName pool rnd usedNames pos = Some (u, pos1)"
  shows "u \<notin> usedNames \<and> pos < pos1 \<and> (\<exists>k. pos \<le> k \<and> k < pos1 \<and> u = pickName pool (rnd k))"
proof -
  from assms have r: "redrawName pool rnd usedNames (pickName pool (rnd pos)) (pos + 1) = Some (u, pos1)"
    by (simp add: drawName_def)
  from redrawName_Some_aux [OF r]
  have a: "u \<notin> usedNames" and b: "pos + 1 \<le> pos1"
    and c: "u = pickName pool (rnd pos) \<and> pos1 = pos + 1
            \<or> (\<exists>q. pos + 1 \<le> q \<and> q < pos1 \<and> u = pickName pool (rnd q))"
    by simp_all
  from c have "\<exists>k. pos \<le> k \<and> k < pos1 \<and> u = pickName pool (rnd k)"
  proof
    assume "u = pickName pool (rnd pos) \<and> pos1 = pos + 1"
    then have "pos \<le> pos \<and> pos < pos1 \<and> u = pickName pool (rnd pos)" by simp
    then show ?thesis by (rule exI)
  next
    assume "\<exists>q. pos + 1 \<le> q \<and> q < pos1 \<and> u = pickName pool (rnd q)"
    then obtain q where "pos + 1 \<le> q" "q < pos1" "u = pickName pool (rnd q)" by blast
    then have "pos \<le> q \<and> q < pos1 \<and> u = pickName pool (rnd q)" by simp
    then show ?thesis by (rule exI)
  qed
  with a b show ?thesis by simp
qed


lemma jsIndex_nat: "i < length xs \<Longrightarrow> jsIndex xs (Num (real i)) = Some (xs ! i)"
  by (simp add: jsIndex_def)

lemma jsIndex_in_set:
  assumes "jsIndex xs k = Some x"
  shows "x \<in> set xs"
proof (cases k)
  case (Num r)
  with assms have r: "0 \<le> r" "r < real (length xs)" "x = xs ! nat \<lfloor>r\<rfloor>"
    by (auto simp: jsIndex_def split: if_splits)
  from r(1,2) have "nat \<lfloor>r\<rfloor> < length xs" by linarith
  with r(3) show ?thesis by simp
next
  case NegZero
  with assms show ?thesis by (cases xs) (auto simp: jsIndex_def split: if_splits)
next
  case PosInf
  with assms show ?thesis by (simp add: jsIndex_def)
next
  case NegInf
  with assms show ?thesis by (simp add: jsIndex_def)
next
  case NaN
  with assms show ?thesis by (simp add: jsIndex_def)
qed

lemma pickName_in_pool: "pickName pool u = Some n \<Longrightarrow> n \<in> set pool"
  unfolding pickName_def by (rule jsIndex_in_set)

lemma generateLoop_Some:
  "generateLoop pool rnd ps n entries usedNames pos = Some (es, pos') \<Longrightarrow>
   \<exists>draws. length draws = n
     \<and> es = entries @ map (\<lambda>d. makeEntry ps (fst d) (rnd (snd d)) (rnd (snd d + 1))) draws
     \<and> (\<forall>d\<in>set draws. pos < snd d \<and> snd d + 2 \<le> pos' \<and> fst d \<notin> usedNames
           \<and> (\<exists>k. pos \<le> k \<and> k < snd d \<and> fst d = pickName pool (rnd k)))
     \<and> sorted_wrt (\<lambda>a b. snd a + 2 < snd b) draws
     \<and> distinct (map fst draws)
     \<and> pos \<le> pos'"
proof (induction n arbitrary: entries usedNames pos)
  case 0
  then show ?case by simp
next
  case (Suc n)
  from Suc.prems obtain u pos1 where
    dn: "drawName pool rnd usedNames pos = Some (u, pos1)"
    and rest: "generateLoop pool rnd ps n
                 (entries @ [makeEntry ps u (rnd pos1) (rnd (pos1 + 1))])
                 (insert u usedNames) (pos1 + 2) = Some (es, pos')"
    by (auto split: option.splits)
  from drawName_Some [OF dn]
  have u: "u \<notin> usedNames" and lt: "pos < pos1"
    and k: "\<exists>k. pos \<le> k \<and> k < pos1 \<and> u = pickName pool (rnd k)"
    by simp_all
  from Suc.IH [OF rest] obtain draws where
    len: "length draws = n"
    and es: "es = (entries @ [makeEntry ps u (rnd pos1) (rnd (pos1 + 1))])
                  @ map (\<lambda>d. makeEntry ps (fst d) (rnd (snd d)) (rnd (snd d + 1))) draws"
    and each: "\<forall>d\<in>set draws. pos1 + 2 < snd d \<and> snd d + 2 \<le> pos' \<and> fst d \<notin> insert u usedNames
           \<and> (\<exists>k. pos1 + 2 \<le> k \<and> k < snd d \<and> fst d = pickName pool (rnd k))"
    and srt: "sorted_wrt (\<lambda>a b. snd a + 2 < snd b) draws"
    and dist: "distinct (map fst draws)"
    and le: "pos1 + 2 \<le> pos'"
    by blast
  let ?draws = "(u, pos1) # draws"
  have 1: "length ?draws = Suc n" using len by simp
  have 2: "es = entries @ map (\<lambda>d. makeEntry ps (fst d) (rnd (snd d)) (rnd (snd d + 1))) ?draws"
    using es by simp
  have 3: "\<forall>d\<in>set ?draws. pos < snd d \<and> snd d + 2 \<le> pos' \<and> fst d \<notin> usedNames
           \<and> (\<exists>k. pos \<le> k \<and> k < snd d \<and> fst d = pickName pool (rnd k))"
  proof
    fix d assume "d \<in> set ?draws"
    then consider "d = (u, pos1)" | "d \<in> set draws" by auto
    then show "pos < snd d \<and> snd d + 2 \<le> pos' \<and> fst d \<notin> usedNames
           \<and> (\<exists>k. pos \<le> k \<and> k < snd d \<and> fst d = pickName pool (rnd k))"
    proof cases
      case 1
      with u lt k le show ?thesis by simp
    next
      case 2
      with each have a: "pos1 + 2 < snd d" "snd d + 2 \<le> pos'" "fst d \<notin> insert u usedNames"
        and "\<exists>k. pos1 + 2 \<le> k \<and> k < snd d \<and> fst d = pickName pool (rnd k)"
        by blast+
      then obtain k where "pos1 + 2 \<le> k" "k < snd d" "fst d = pickName pool (rnd k)" by blast
      with lt have "pos \<le> k \<and> k < snd d \<and> fst d = pickName pool (rnd k)" by simp
      then have "\<exists>k. pos \<le> k \<and> k < snd d \<and> fst d = pickName pool (rnd k)" by (rule exI)
      with a lt show ?thesis by simp
    qed
  qed
  have 4: "sorted_wrt (\<lambda>a b. snd a + 2 < snd b) ?draws"
    using srt each by simp
  have 5: "distinct (map fst ?draws)"
    using dist each by auto
  have 6: "pos \<le> pos'" using lt le by simp
  from 1 2 3 4 5 6 show ?case by blast
qed

lemma pool_has_unused:
  assumes "finite usedNames" and "card usedNames < card (set pool)"
  shows "\<exists>i<length pool. Some (pool ! i) \<notin> usedNames"
proof -
  have "card (Some ` set pool) = card (set pool)"
    by (simp add: card_image)
  with assms have "\<not> Some ` set pool \<subseteq> usedNames"
    using card_mono [of usedNames "Some ` set pool"] by auto
  then obtain x where "x \<in> set pool" "Some x \<notin> usedNames" by auto
  then show ?thesis by (auto simp: in_set_conv_nth)
qed


lemma drawName_returns:
  assumes "fairSource pool rnd" and "i < length pool" and "Some (pool ! i) \<notin> usedNames"
  shows "\<exists>r. drawName pool rnd usedNames pos = Some r"
proof -
  from assms(1,2) obtain q where q: "pos + 1 \<le> q"
    "jfloor (jmul (Num (rnd q)) (Num (real (length pool)))) = Num (real i)"
    unfolding fairSource_def by blast
  with assms(2) have "pickName pool (rnd q) = Some (pool ! i)"
    by (simp add: pickName_def jsIndex_nat)
  with assms(3) have "pickName pool (rnd q) \<notin> usedNames" by simp
  moreover have "pos + 1 \<le> q + 1" using q(1) by simp
  moreover have "pos + 1 = q + 1 \<longrightarrow> pickName pool (rnd pos) \<notin> usedNames" using q(1) by simp
  ultimately show ?thesis
    unfolding drawName_def by (intro redrawName_returns)
qed

lemma generateLoop_returns:
  "fairSource pool rnd \<Longrightarrow> finite usedNames \<Longrightarrow> card usedNames + n \<le> card (set pool)
   \<Longrightarrow> \<exists>r. generateLoop pool rnd ps n entries usedNames pos = Some r"
proof (induction n arbitrary: entries usedNames pos)
  case 0
  show ?case by simp
next
  case (Suc n)
  from Suc.prems have "card usedNames < card (set pool)" by simp
  from pool_has_unused [OF Suc.prems(2) this]
  obtain i where "i < length pool" "Some (pool ! i) \<notin> usedNames" by blast
  from drawName_returns [OF Suc.prems(1) this]
  obtain u pos1 where dn: "drawName pool rnd usedNames pos = Some (u, pos1)" by (metis surj_pair)
  have "card (insert u usedNames) + n \<le> card (set pool)"
    using Suc.prems(2,3) by (simp add: card_insert_if)
  with Suc.IH [of "insert u usedNames"] Suc.prems(1,2)
  have "\<exists>r. generateLoop pool rnd ps n
                 (entries @ [makeEntry ps u (rnd pos1) (rnd (pos1 + 1))])
                 (insert u usedNames) (pos1 + 2) = Some r"
    by simp
  with dn show ?case by simp
qed

lemma generateLoop_makes:
  assumes "generateLeaderboardEntries pool rnd c ps = Some (es, c')"
  shows "\<exists>draws. length draws = 15
     \<and> es = sortBy byScoreDesc (map (\<lambda>d. makeEntry ps (fst d) (rnd (snd d)) (rnd (snd d + 1))) draws)
     \<and> (\<forall>d\<in>set draws. c < snd d \<and> snd d + 2 \<le> c'
           \<and> (\<exists>k. c \<le> k \<and> k < snd d \<and> fst d = pickName pool (rnd k)))
     \<and> sorted_wrt (\<lambda>a b. snd a + 2 < snd b) draws
     \<and> distinct (map fst draws)"
proof -
  from assms obtain raw where
    loop: "generateLoop pool rnd ps 15 [] {} c = Some (raw, c')"
    and es: "es = sortBy byScoreDesc raw"
    by (auto simp: generateLeaderboardEntries_def split: option.splits)
  from generateLoop_Some [OF loop] es show ?thesis by auto
qed

lemma generate_returns:
  assumes "fairSource pool rnd" and "15 \<le> card (set pool)"
  shows "\<exists>es c'. generateLeaderboardEntries pool rnd c ps = Some (es, c')"
proof -
  have "\<exists>r. generateLoop pool rnd ps 15 [] {} c = Some r"
    using assms by (intro generateLoop_returns) simp_all
  then obtain raw c' where "generateLoop pool rnd ps 15 [] {} c = Some (raw, c')" by auto
  then show ?thesis by (simp add: generateLeaderboardEntries_def)
qed


text \<open>What the call returns, for every reference score: 15 entries named from the pool.\<close>

lemma generate_shape:
  assumes "generateLeaderboardEntries pool rnd c ps = Some (es, c')"
  shows "length es = 15 \<and> (\<forall>e\<in>set es. username e \<in> range (pickName pool)) \<and> c \<le> c'
         \<and> (\<forall>e\<in>set es. \<exists>n u v. e = makeEntry ps n u v)"
proof -
  from generateLoop_makes [OF assms] obtain draws where
    len: "length draws = 15"
    and es: "es = sortBy byScoreDesc
               (map (\<lambda>d. makeEntry ps (fst d) (rnd (snd d)) (rnd (snd d + 1))) draws)"
    and each: "\<forall>d\<in>set draws. c < snd d \<and> snd d + 2 \<le> c'
           \<and> (\<exists>k. c \<le> k \<and> k < snd d \<and> fst d = pickName pool (rnd k))"
    by blast
  have 1: "length es = 15" unfolding es length_sortBy using len by simp
  have 4: "\<forall>e\<in>set es. username e \<in> range (pickName pool)"
    unfolding es set_sortBy using each by (auto simp: makeEntry_def Let_def)
  from len obtain d where "d \<in> set draws" by (cases draws) auto
  with each have 5: "c \<le> c'" by fastforce
  have 6: "\<forall>e\<in>set es. \<exists>n u v. e = makeEntry ps n u v"
    unfolding es set_sortBy by auto
  from 1 4 5 6 show ?thesis by simp
qed

text \<open>For a reference score that is a number other than \<open>Infinity\<close>, the entries are in
  order and at least 50.\<close>

lemma generate_scores:
  assumes "generateLeaderboardEntries pool rnd c ps = Some (es, c')"
    and "jsNumber ps" and "ps \<noteq> PosInf"
  shows "sortedDesc es \<and> (\<forall>e\<in>set es. sortable (score e) \<and> jle (Num 50) (score e))"
proof -
  from generateLoop_makes [OF assms(1)] obtain draws where
    es: "es = sortBy byScoreDesc
               (map (\<lambda>d. makeEntry ps (fst d) (rnd (snd d)) (rnd (snd d + 1))) draws)"
    by blast
  let ?raw = "map (\<lambda>d. makeEntry ps (fst d) (rnd (snd d)) (rnd (snd d + 1))) draws"
  have each: "\<forall>e\<in>set ?raw. sortable (score e) \<and> jle (Num 50) (score e)"
    using score_makeEntry [OF assms(2,3)] by auto
  then have "sortedDesc es" unfolding es by (intro sortedDesc_sortBy) blast
  with each show ?thesis unfolding es set_sortBy by blast
qed

lemma generated_names:
  assumes "generateLeaderboardEntries pool rnd c ps = Some (generated, c')"
    and "''YOU'' \<notin> set pool"
  shows "\<forall>e\<in>set generated. username e \<noteq> Some ''YOU''"
proof
  fix e assume "e \<in> set generated"
  with generate_shape [OF assms(1)] obtain u where "username e = pickName pool u" by auto
  with assms(2) show "username e \<noteq> Some ''YOU''" by (auto dest: pickName_in_pool)
qed

text \<open>The loop only appends to the entries it has.\<close>

lemma generateLoop_prefix:
  "generateLoop pool rnd ps n entries usedNames pos = Some (es, pos') \<Longrightarrow>
   set entries \<subseteq> set es \<and> length es = length entries + n"
  using generateLoop_Some [of pool rnd ps n entries usedNames pos es pos'] by auto

section \<open>The concrete pool and sources\<close>

lemma distinct_pool15: "distinct pool15"
  by (simp add: pool15_def)

lemma card_pool15: "card (set pool15) = 15"
  using distinct_card [OF distinct_pool15] by (simp add: pool15_def)

lemmas js_eval = jadd_def jsub_def jmul_def jmax_def jlt_def jle_def jsIndex_def pickName_def

text \<open>The index the code computes from the draw \<open>(17 k + 8) / 256\<close> in a pool of 15.\<close>

lemma index_rnd15:
  assumes "k < 15"
  shows "jfloor (jmul (Num ((17 * real k + 8) / 256)) (Num 15)) = Num (real k)"
proof -
  from assms have "k \<in> {0, 1, 2, 3, 4, 5, 6, 7, 8, 9, 10, 11, 12, 13, 14}"
    by simp presburger
  then show ?thesis
    by (elim insertE emptyE) (simp_all add: jmul_def fl_eval)
qed

lemma fairSource_rnd15: "fairSource pool15 rnd15"
  unfolding fairSource_def
proof (intro allI impI)
  fix p i :: nat
  assume "i < length pool15"
  then have i: "i < 15" by (simp add: pool15_def)
  let ?q = "13 * i + 15 * p"
  have e: "7 * ?q = i + 15 * (6 * i + 7 * p)" by simp
  have "(i + 15 * (6 * i + 7 * p)) mod 15 = i mod 15" by (rule mod_mult_self2)
  with e i have m: "(7 * ?q) mod 15 = i" by (simp only: mod_less)
  have "jfloor (jmul (Num (rnd15 ?q)) (Num (real (length pool15)))) = Num (real i)"
    unfolding rnd15_def m using index_rnd15 [OF i] by (simp add: pool15_def)
  moreover have "p \<le> ?q" by simp
  ultimately show "\<exists>q\<ge>p. jfloor (jmul (Num (rnd15 q)) (Num (real (length pool15)))) = Num (real i)"
    by blast
qed

lemma unitSource_rnd15: "unitSource rnd15"
  unfolding unitSource_def rnd15_def
proof
  fix n :: nat
  have "(7 * n) mod 15 < 15" by simp
  then have "real ((7 * n) mod 15) \<le> 14" by linarith
  then show "0 \<le> (17 * real ((7 * n) mod 15) + 8) / 256 \<and> (17 * real ((7 * n) mod 15) + 8) / 256 < 1"
    by simp
qed

lemma pickName_rndHalf: "pickName pool15 (rndHalf q) = Some ''Hal''"
  by (simp add: js_eval fl_eval pool15_def rndHalf_def)

lemma generateLoop_rndHalf: "generateLoop pool15 rndHalf ps (Suc (Suc n)) entries {} pos = None"
proof -
  have first: "drawName pool15 rndHalf {} pos = Some (Some ''Hal'', pos + 1)"
    unfolding drawName_def by (subst redrawName.simps) (simp add: pickName_rndHalf)
  have "drawName pool15 rndHalf {Some ''Hal''} (pos + 1 + 2) = None"
    unfolding drawName_def by (rule redrawName_None) (simp_all add: pickName_rndHalf)
  with first show ?thesis by simp
qed

section \<open>The states of the component\<close>

lemma smod_nonneg: "0 \<le> a \<Longrightarrow> 0 < b \<Longrightarrow> (a::int) smod b = a mod b"
  by (cases "a = 0") (simp_all add: smod_int_alt_def)

lemma seedEffect_keeps:
  "seedEffect pool rnd s = Some s' \<Longrightarrow>
   visibleStartIndex s' = visibleStartIndex s \<and> props s' = props s"
  by (auto simp: seedEffect_def Let_def split: if_splits option.splits)

text \<open>What the effect leaves in the store, by the status.\<close>

lemma seedEffect_playing:
  assumes "status (props s) = PLAYING" and "seedEffect pool rnd s = Some s'"
  shows "generateLeaderboardEntries pool rnd (calls s) (scoreProp (props s))
           = Some (leaderboardRef s', calls s')
         \<and> leaderboard s' = leaderboardRef s'"
  using assms by (auto simp: seedEffect_def split: option.splits)

lemma seedEffect_game_over:
  assumes "status (props s) = GAME_OVER" and "seedEffect pool rnd s = Some s'"
  shows "\<exists>generated.
           generateLeaderboardEntries pool rnd (calls s)
             (jmax (scoreProp (props s)) (highScore (props s))) = Some (generated, calls s')
           \<and> leaderboardRef s' = sortBy byScoreDesc (generated @ [playerEntry (scoreProp (props s))])
           \<and> leaderboard s' = leaderboardRef s'"
  using assms by (auto simp: seedEffect_def Let_def split: option.splits)

lemma seedEffect_wellFormed:
  assumes "leaderboard s = leaderboardRef s"
    and "0 \<le> visibleStartIndex s" and "visibleStartIndex s < 12"
    and eff: "seedEffect pool rnd s = Some s'"
  shows "wellFormed s'"
proof (cases "status (props s)")
  case MENU
  with eff have "s' = s" by (simp add: seedEffect_def)
  with assms MENU show ?thesis by (simp add: wellFormed_def)
next
  case PLAYING
  from seedEffect_playing [OF PLAYING eff]
  have g: "generateLeaderboardEntries pool rnd (calls s) (scoreProp (props s))
             = Some (leaderboardRef s', calls s')"
    and pub: "leaderboard s' = leaderboardRef s'"
    by simp_all
  from generate_shape [OF g] pub seedEffect_keeps [OF eff] assms(2,3)
  show ?thesis by (simp add: wellFormed_def)
next
  case GAME_OVER
  from seedEffect_game_over [OF GAME_OVER eff] seedEffect_keeps [OF eff] assms(2,3) GAME_OVER
  show ?thesis by (auto simp: wellFormed_def)
qed

lemma seedEffect_scoresOk:
  assumes fp: "finiteProps (props s)" and "sortedDesc (leaderboardRef s)"
    and "\<forall>e\<in>set (leaderboardRef s).
           sortable (score e) \<and> (jle (Num 50) (score e) \<or> e = playerEntry (score e))"
    and eff: "seedEffect pool rnd s = Some s'"
  shows "scoresOk s'"
proof (cases "status (props s)")
  case MENU
  with eff have "s' = s" by (simp add: seedEffect_def)
  with assms MENU show ?thesis by (simp add: scoresOk_def)
next
  case PLAYING
  from fp have "jsNumber (scoreProp (props s))" "scoreProp (props s) \<noteq> PosInf"
    by (auto simp: finiteProps_def)
  moreover from seedEffect_playing [OF PLAYING eff]
  have "generateLeaderboardEntries pool rnd (calls s) (scoreProp (props s))
          = Some (leaderboardRef s', calls s')"
    by simp
  ultimately have "sortedDesc (leaderboardRef s')
      \<and> (\<forall>e\<in>set (leaderboardRef s'). sortable (score e) \<and> jle (Num 50) (score e))"
    by (intro generate_scores)
  with seedEffect_keeps [OF eff] fp show ?thesis by (simp add: scoresOk_def)
next
  case GAME_OVER
  let ?pe = "playerEntry (scoreProp (props s))"
  from seedEffect_game_over [OF GAME_OVER eff] obtain generated where
    g: "generateLeaderboardEntries pool rnd (calls s)
          (jmax (scoreProp (props s)) (highScore (props s))) = Some (generated, calls s')"
    and ref: "leaderboardRef s' = sortBy byScoreDesc (generated @ [?pe])"
    by blast
  from fp have "jsNumber (jmax (scoreProp (props s)) (highScore (props s)))"
    "jmax (scoreProp (props s)) (highScore (props s)) \<noteq> PosInf"
    using jmax_finite [of "scoreProp (props s)" "highScore (props s)"]
    by (simp_all add: finiteProps_def)
  from generate_scores [OF g this]
  have gs: "\<forall>e\<in>set generated. sortable (score e) \<and> jle (Num 50) (score e)" by simp
  from fp have "sortable (scoreProp (props s))"
    by (intro jsNumber_sortable) (auto simp: finiteProps_def)
  then have pe: "sortable (score ?pe)" "?pe = playerEntry (score ?pe)"
    by (simp_all add: playerEntry_def)
  from gs pe have all: "\<forall>e\<in>set (generated @ [?pe]).
      sortable (score e) \<and> (jle (Num 50) (score e) \<or> e = playerEntry (score e))"
    by auto
  then have "sortedDesc (sortBy byScoreDesc (generated @ [?pe]))"
    by (intro sortedDesc_sortBy) blast
  with all seedEffect_keeps [OF eff] fp GAME_OVER show ?thesis
    unfolding scoresOk_def ref set_sortBy by simp
qed

lemma length_insertLive: "length (insertLive e xs) = 1 + min 14 (length xs)"
  unfolding insertLive_def length_sortBy by simp

lemma tick_store:
  "leaderboardRef (tick pool rnd s) =
     (if jlt (Num (1 / 2)) (Num (rnd (calls s)))
      then insertLive (liveEntry pool rnd s) (leaderboardRef s) else leaderboardRef s)"
  by (simp add: tick_def rotate_def Let_def)

lemma tick_window:
  "visibleStartIndex (tick pool rnd t) =
     (visibleStartIndex t + 1) smod max 1 (int (length (leaderboardRef (tick pool rnd t))) - 3)"
  by (simp add: tick_def rotate_def Let_def)

lemma tick_props: "props (tick pool rnd t) = props t"
  by (simp add: tick_def rotate_def Let_def)

lemma tick_published:
  "leaderboard t = leaderboardRef t \<Longrightarrow>
   leaderboard (tick pool rnd t) = leaderboardRef (tick pool rnd t)"
  by (simp add: tick_def rotate_def Let_def)

lemma tick_wellFormed:
  assumes wf: "wellFormed s" and pl: "status (props s) = PLAYING"
  shows "wellFormed (tick pool rnd s)"
proof -
  from wf pl have len: "length (leaderboardRef s) = 15"
    and v: "0 \<le> visibleStartIndex s" and pub: "leaderboard s = leaderboardRef s"
    by (simp_all add: wellFormed_def)
  have l: "length (leaderboardRef (tick pool rnd s)) = 15"
    unfolding tick_store using len by (simp add: length_insertLive)
  from v have "(visibleStartIndex s + 1) smod 12 = (visibleStartIndex s + 1) mod 12"
    by (intro smod_nonneg) simp_all
  with tick_window [of pool rnd s] l
  have "visibleStartIndex (tick pool rnd s) = (visibleStartIndex s + 1) mod 12" by simp
  then have "0 \<le> visibleStartIndex (tick pool rnd s)" "visibleStartIndex (tick pool rnd s) < 12"
    by simp_all
  with l tick_published [OF pub] show ?thesis by (simp add: wellFormed_def)
qed

lemma tick_scoresOk:
  assumes ok: "scoresOk s" and pl: "status (props s) = PLAYING" and u: "unitSource rnd"
  shows "scoresOk (tick pool rnd s)"
proof (cases "jlt (Num (1 / 2)) (Num (rnd (calls s)))")
  case False
  with ok show ?thesis by (simp add: scoresOk_def tick_store tick_props)
next
  case True
  let ?e = "liveEntry pool rnd s"
  from ok have "isFin (scoreProp (props s))" by (simp add: scoresOk_def finiteProps_def)
  from score_liveEntry [OF this, of rnd pool] u
  have e: "sortable (score ?e)" "jle (Num 50) (score ?e)" by (simp_all add: unitSource_def)
  from ok pl have old: "\<forall>x\<in>set (leaderboardRef s). sortable (score x) \<and> jle (Num 50) (score x)"
    by (simp add: scoresOk_def)
  with e have all: "\<forall>x\<in>set (?e # take 14 (leaderboardRef s)).
      sortable (score x) \<and> jle (Num 50) (score x)"
    by (auto dest: in_set_takeD)
  then have "sortedDesc (insertLive ?e (leaderboardRef s))"
    unfolding insertLive_def by (intro sortedDesc_sortBy) blast
  moreover from all have "\<forall>x\<in>set (insertLive ?e (leaderboardRef s)).
      sortable (score x) \<and> jle (Num 50) (score x)"
    unfolding insertLive_def set_sortBy .
  ultimately show ?thesis
    using True ok by (simp add: scoresOk_def tick_store tick_props)
qed

lemma render_keeps:
  "render pool rnd s p = Some s' \<Longrightarrow> visibleStartIndex s' = visibleStartIndex s \<and> props s' = p"
  by (auto simp: render_def dest: seedEffect_keeps split: if_splits)

lemma render_wellFormed:
  assumes "wellFormed s" and "render pool rnd s p = Some s'"
  shows "wellFormed s'"
proof (cases "p = props s")
  case True
  with assms show ?thesis by (simp add: render_def)
next
  case False
  with assms(2) have "seedEffect pool rnd (s\<lparr>props := p\<rparr>) = Some s'" by (simp add: render_def)
  with assms(1) show ?thesis
    by (intro seedEffect_wellFormed [of "s\<lparr>props := p\<rparr>"]) (simp_all add: wellFormed_def)
qed

lemma render_scoresOk:
  assumes "scoresOk s" and "finiteProps p" and "render pool rnd s p = Some s'"
  shows "scoresOk s'"
proof (cases "p = props s")
  case True
  with assms show ?thesis by (simp add: render_def)
next
  case False
  with assms(3) have "seedEffect pool rnd (s\<lparr>props := p\<rparr>) = Some s'" by (simp add: render_def)
  with assms(1,2) show ?thesis
    by (intro seedEffect_scoresOk [of "s\<lparr>props := p\<rparr>"]) (simp_all add: scoresOk_def)
qed

lemma step_wellFormed:
  assumes "wellFormed s" and "step pool rnd s ev = Some s'"
  shows "wellFormed s'"
proof (cases ev)
  case (Render p)
  with assms render_wellFormed show ?thesis by (simp add: step_def)
next
  case Tick
  with assms tick_wellFormed [OF assms(1)] show ?thesis
    by (auto simp: step_def split: if_splits)
qed

lemma step_scoresOk:
  assumes "scoresOk s" and "finiteEvent ev" and "unitSource rnd"
    and "step pool rnd s ev = Some s'"
  shows "scoresOk s'"
proof (cases ev)
  case (Render p)
  with assms render_scoresOk show ?thesis by (simp add: step_def)
next
  case Tick
  with assms tick_scoresOk [OF assms(1) _ assms(3)] show ?thesis
    by (auto simp: step_def split: if_splits)
qed

lemma run_wellFormed:
  "wellFormed s \<Longrightarrow> run pool rnd s evs = Some s' \<Longrightarrow> wellFormed s'"
proof (induction evs arbitrary: s)
  case Nil
  then show ?case by simp
next
  case (Cons ev evs)
  from Cons.prems(2) obtain s1 where
    st: "step pool rnd s ev = Some s1" and rest: "run pool rnd s1 evs = Some s'"
    by (auto split: option.splits)
  from Cons.IH [OF step_wellFormed [OF Cons.prems(1) st] rest] show ?case .
qed

lemma run_scoresOk:
  "scoresOk s \<Longrightarrow> \<forall>ev\<in>set evs. finiteEvent ev \<Longrightarrow> unitSource rnd
   \<Longrightarrow> run pool rnd s evs = Some s' \<Longrightarrow> scoresOk s'"
proof (induction evs arbitrary: s)
  case Nil
  then show ?case by simp
next
  case (Cons ev evs)
  from Cons.prems(4) obtain s1 where
    st: "step pool rnd s ev = Some s1" and rest: "run pool rnd s1 evs = Some s'"
    by (auto split: option.splits)
  from Cons.prems(2) have fe: "finiteEvent ev" and fes: "\<forall>ev\<in>set evs. finiteEvent ev"
    by simp_all
  from Cons.IH [OF step_scoresOk [OF Cons.prems(1) fe Cons.prems(3) st] fes Cons.prems(3) rest]
  show ?case .
qed

lemma mount_wellFormed:
  assumes "mount pool rnd c p = Some s"
  shows "wellFormed s \<and> visibleStartIndex s = 0"
proof -
  let ?s0 = "\<lparr>props = p, leaderboard = [], visibleStartIndex = 0, leaderboardRef = [], calls = c\<rparr>"
  from assms have eff: "seedEffect pool rnd ?s0 = Some s" by (simp add: mount_def)
  from seedEffect_wellFormed [OF _ _ _ eff] seedEffect_keeps [OF eff] show ?thesis by simp
qed

lemma mount_scoresOk:
  assumes "finiteProps p" and "mount pool rnd c p = Some s"
  shows "scoresOk s"
proof -
  let ?s0 = "\<lparr>props = p, leaderboard = [], visibleStartIndex = 0, leaderboardRef = [], calls = c\<rparr>"
  from assms have eff: "seedEffect pool rnd ?s0 = Some s" by (simp add: mount_def)
  from assms(1) show ?thesis
    by (intro seedEffect_scoresOk [OF _ _ _ eff]) (simp_all add: sortedDesc_def)
qed

lemma start_wellFormed: "start pool rnd c p evs = Some s \<Longrightarrow> wellFormed s"
  by (auto simp: start_def split: option.splits
      intro: run_wellFormed [OF conjunct1 [OF mount_wellFormed]])

lemma start_scoresOk:
  assumes "start pool rnd c p evs = Some s" and "finiteProps p"
    and "\<forall>ev\<in>set evs. finiteEvent ev" and "unitSource rnd"
  shows "scoresOk s"
proof -
  from assms(1) obtain s0 where m: "mount pool rnd c p = Some s0"
    and r: "run pool rnd s0 evs = Some s"
    by (auto simp: start_def split: option.splits)
  from run_scoresOk [OF mount_scoresOk [OF assms(2) m] assms(3,4) r] show ?thesis .
qed

text \<open>With a fair source and 15 distinct names, every render and every run returns.\<close>

lemma seedEffect_returns:
  assumes "fairSource pool rnd" and "15 \<le> card (set pool)"
  shows "\<exists>s'. seedEffect pool rnd s = Some s'"
proof -
  note g = generate_returns [OF assms]
  show ?thesis
  proof (cases "status (props s)")
    case MENU
    then show ?thesis by (simp add: seedEffect_def)
  next
    case PLAYING
    with g [of "calls s" "scoreProp (props s)"] show ?thesis
      by (auto simp: seedEffect_def)
  next
    case GAME_OVER
    with g [of "calls s" "jmax (scoreProp (props s)) (highScore (props s))"] show ?thesis
      by (auto simp: seedEffect_def Let_def)
  qed
qed

lemma step_returns:
  assumes "fairSource pool rnd" and "15 \<le> card (set pool)"
  shows "\<exists>s'. step pool rnd s ev = Some s'"
proof (cases ev)
  case (Render p)
  with seedEffect_returns [OF assms, of "s\<lparr>props := p\<rparr>"] show ?thesis
    by (auto simp: step_def render_def)
next
  case Tick
  then show ?thesis by (simp add: step_def)
qed

lemma run_returns:
  assumes "fairSource pool rnd" and "15 \<le> card (set pool)"
  shows "\<exists>s'. run pool rnd s evs = Some s'"
proof (induction evs arbitrary: s)
  case Nil
  show ?case by simp
next
  case (Cons ev evs)
  from step_returns [OF assms, of s ev] obtain s1 where "step pool rnd s ev = Some s1" by blast
  with Cons [of s1] show ?case by simp
qed

lemma start_returns:
  assumes "fairSource pool rnd" and "15 \<le> card (set pool)"
  shows "\<exists>s. start pool rnd c p evs = Some s"
proof -
  from seedEffect_returns [OF assms] obtain s0 where "mount pool rnd c p = Some s0"
    unfolding mount_def by blast
  with run_returns [OF assms, of s0 evs] show ?thesis by (simp add: start_def)
qed

lemma render_returns:
  assumes "fairSource pool rnd" and "15 \<le> card (set pool)"
  shows "\<exists>s'. render pool rnd s p = Some s'"
  using step_returns [OF assms, of s "Render p"] by (simp add: step_def)

lemma start_pool15_returns: "\<exists>s. start pool15 rnd15 c p evs = Some s"
  by (rule start_returns [OF fairSource_rnd15]) (simp add: card_pool15)

lemma render_pool15_returns: "\<exists>s'. render pool15 rnd15 s p = Some s'"
  by (rule render_returns [OF fairSource_rnd15]) (simp add: card_pool15)

text \<open>A run, one event at a time.\<close>

lemma run_snoc:
  "run pool rnd s (evs @ [ev]) =
     (case run pool rnd s evs of None \<Rightarrow> None | Some t \<Rightarrow> step pool rnd t ev)"
  by (induction evs arbitrary: s) (auto split: option.splits)

lemma start_snoc:
  "start pool rnd c p (evs @ [ev]) =
     (case start pool rnd c p evs of None \<Rightarrow> None | Some t \<Rightarrow> step pool rnd t ev)"
  by (simp add: start_def run_snoc split: option.splits)

lemma start_Nil: "start pool rnd c p [] = mount pool rnd c p"
  by (simp add: start_def split: option.splits)

text \<open>The window start after \<open>k\<close> ticks, while the store keeps its size.\<close>

lemma ticks_window:
  assumes "0 \<le> visibleStartIndex s" and "visibleStartIndex s < max 1 (int N - 3)"
    and "\<forall>j\<le>k. length (leaderboardRef ((tick pool rnd ^^ j) s)) = N"
  shows "visibleStartIndex ((tick pool rnd ^^ k) s) =
           (visibleStartIndex s + int k) mod max 1 (int N - 3)"
  using assms(3)
proof (induction k)
  case 0
  from assms(1,2) show ?case by simp
next
  case (Suc k)
  let ?M = "max 1 (int N - 3)"
  let ?t = "(tick pool rnd ^^ k) s"
  from Suc.prems have "\<forall>j\<le>k. length (leaderboardRef ((tick pool rnd ^^ j) s)) = N" by simp
  from Suc.IH [OF this] have ih: "visibleStartIndex ?t = (visibleStartIndex s + int k) mod ?M" .
  from Suc.prems have len: "length (leaderboardRef (tick pool rnd ?t)) = N"
    by (metis funpow.simps(2) o_apply order_refl)
  have nn: "0 \<le> visibleStartIndex ?t + 1" unfolding ih by simp
  have "visibleStartIndex (tick pool rnd ?t) = (visibleStartIndex ?t + 1) smod ?M"
    using tick_window [of pool rnd ?t] len by simp
  also have "\<dots> = (visibleStartIndex ?t + 1) mod ?M"
    using nn by (intro smod_nonneg) simp_all
  also have "\<dots> = (visibleStartIndex s + int (Suc k)) mod ?M"
    unfolding ih by (simp add: mod_simps add.commute add.left_commute)
  finally show ?case by simp
qed

text \<open>A store of 15 entries keeps its size through ticks, whatever is drawn; any store
  is left as it is by the ticks of a source that never draws more than one half.\<close>

lemma ticks_keep_15:
  "length (leaderboardRef s) = 15 \<Longrightarrow> length (leaderboardRef ((tick pool rnd ^^ k) s)) = 15"
  by (induction k) (simp_all add: tick_store length_insertLive)

lemma ticks_no_insert:
  "\<forall>n. \<not> jlt (Num (1 / 2)) (Num (rnd n)) \<Longrightarrow>
   leaderboardRef ((tick pool rnd ^^ k) s) = leaderboardRef s"
  by (induction k) (simp_all add: tick_store)

lemma window_returns:
  fixes v :: int
  assumes "0 \<le> v" and "v < M"
  shows "(v + M) mod M = v" and "0 < k \<Longrightarrow> k < M \<Longrightarrow> (v + k) mod M \<noteq> v"
proof -
  from assms show "(v + M) mod M = v" by simp
  show "(v + k) mod M \<noteq> v" if "0 < k" "k < M"
  proof
    assume "(v + k) mod M = v"
    with assms have "(v + k) mod M = v mod M" by simp
    then have "M dvd (v + k) - v" by (simp add: mod_eq_dvd_iff)
    then have "M dvd k" by simp
    with that have "M \<le> k" by (intro zdvd_imp_le) simp_all
    with that show False by simp
  qed
qed

section \<open>The player's rank\<close>

lemma findIndexFrom_none: "(\<forall>x\<in>set xs. \<not> P x) \<Longrightarrow> findIndexFrom P xs i = - 1"
  by (induction xs arbitrary: i) auto

lemma findIndexFrom_some:
  "\<exists>x\<in>set xs. P x \<Longrightarrow>
   \<exists>k<length xs. findIndexFrom P xs i = i + int k \<and> P (xs ! k) \<and> (\<forall>j<k. \<not> P (xs ! j))"
proof (induction xs arbitrary: i)
  case Nil
  then show ?case by simp
next
  case (Cons x xs)
  show ?case
  proof (cases "P x")
    case True
    then have "0 < length (x # xs) \<and> findIndexFrom P (x # xs) i = i + int 0
        \<and> P ((x # xs) ! 0) \<and> (\<forall>j<0. \<not> P ((x # xs) ! j))"
      by simp
    then show ?thesis by blast
  next
    case False
    with Cons.prems have "\<exists>x\<in>set xs. P x" by simp
    from Cons.IH [OF this, of "i + 1"] obtain k where k: "k < length xs"
      "findIndexFrom P xs (i + 1) = i + 1 + int k" "P (xs ! k)" "\<forall>j<k. \<not> P (xs ! j)"
      by blast
    have "\<forall>j<Suc k. \<not> P ((x # xs) ! j)"
    proof (intro allI impI)
      fix j assume "j < Suc k"
      with k(4) False show "\<not> P ((x # xs) ! j)" by (cases j) simp_all
    qed
    with k False have "Suc k < length (x # xs)
        \<and> findIndexFrom P (x # xs) i = i + int (Suc k)
        \<and> P ((x # xs) ! Suc k) \<and> (\<forall>j<Suc k. \<not> P ((x # xs) ! j))"
      by simp
    then show ?thesis by blast
  qed
qed

lemma findIndex_absent: "findIndex P xs = - 1 \<longleftrightarrow> (\<forall>x\<in>set xs. \<not> P x)"
proof
  assume a: "findIndex P xs = - 1"
  show "\<forall>x\<in>set xs. \<not> P x"
  proof (rule ccontr)
    assume "\<not> (\<forall>x\<in>set xs. \<not> P x)"
    then have "\<exists>x\<in>set xs. P x" by simp
    from findIndexFrom_some [OF this, of 0] a show False by (auto simp: findIndex_def)
  qed
next
  assume "\<forall>x\<in>set xs. \<not> P x"
  then show "findIndex P xs = - 1" by (simp add: findIndex_def findIndexFrom_none)
qed

lemma findIndex_first:
  "\<exists>x\<in>set xs. P x \<Longrightarrow>
   \<exists>k<length xs. findIndex P xs = int k \<and> P (xs ! k) \<and> (\<forall>j<k. \<not> P (xs ! j))"
  using findIndexFrom_some [of xs P 0] by (simp add: findIndex_def)

lemma findIndexFrom_shift:
  "\<exists>x\<in>set xs. P x \<Longrightarrow> findIndexFrom P xs (i + 1) = findIndexFrom P xs i + 1"
proof (induction xs arbitrary: i)
  case Nil
  then show ?case by simp
next
  case (Cons a xs)
  show ?case
  proof (cases "P a")
    case True
    then show ?thesis by simp
  next
    case False
    with Cons.prems have ex: "\<exists>x\<in>set xs. P x" by simp
    have "findIndexFrom P (a # xs) (i + 1) = findIndexFrom P xs (i + 1 + 1)"
      using False by simp
    also have "\<dots> = findIndexFrom P xs (i + 1) + 1" by (rule Cons.IH [OF ex])
    also have "\<dots> = findIndexFrom P (a # xs) i + 1" using False by simp
    finally show ?thesis .
  qed
qed


lemma findIndexFrom_insertSorted:
  assumes "\<not> P a" and "sortedDesc L" and "\<forall>x\<in>set L. P x \<longrightarrow> score x = sc"
    and "\<exists>x\<in>set L. P x"
    and "sortable (score a)" and "\<forall>x\<in>set L. sortable (score x)"
  shows "findIndexFrom P (insertSorted byScoreDesc a L) i =
           findIndexFrom P L i + (if jle sc (score a) then 1 else 0)"
  using assms(2-4,6)
proof (induction L arbitrary: i)
  case Nil
  then show ?case by simp
next
  case (Cons y ys)
  from Cons.prems(4) have sy: "sortable (score y)" and sys: "\<forall>x\<in>set ys. sortable (score x)"
    by simp_all
  from assms(5) sy have nn: "score a \<noteq> NaN" "score y \<noteq> NaN" by (simp_all add: sortable_def)
  note test = byScoreDesc_sign [OF assms(5) sy]
  from Cons.prems(3) obtain x where x: "x \<in> set (y # ys)" "P x" by blast
  with Cons.prems(2) have xs: "score x = sc" by blast
  have top: "jle sc (score y)"
  proof (cases "x = y")
    case True
    with xs nn(2) show ?thesis by (simp add: jle_refl)
  next
    case False
    with x(1) have "x \<in> set ys" by simp
    from sortedDesc_head [OF Cons.prems(1) this] xs show ?thesis by simp
  qed
  show ?case
  proof (cases "jlt (score a) (score y)")
    case False
    from not_jlt_jle [OF nn False] top have "jle sc (score a)" by (rule jle_trans [rotated])
    with False test assms(1) findIndexFrom_shift [OF Cons.prems(3), of i] show ?thesis
      by simp
  next
    case True
    show ?thesis
    proof (cases "P y")
      case py: True
      with Cons.prems(2) have "score y = sc" by simp
      with jlt_not_jle [OF True] have "\<not> jle sc (score a)" by simp
      with True test py show ?thesis by simp
    next
      case ny: False
      from Cons.prems(1) have s: "sortedDesc ys" by (simp add: sortedDesc_def)
      from Cons.prems(2) have e: "\<forall>x\<in>set ys. P x \<longrightarrow> score x = sc" by simp
      from Cons.prems(3) ny have ex: "\<exists>x\<in>set ys. P x" by auto
      from Cons.IH [OF s e ex sys, of "i + 1"] True test ny show ?thesis
        by simp
    qed
  qed
qed

lemma player_on_top:
  assumes "\<forall>e\<in>set generated. sortable (score e) \<and> jlt (score e) sc" and "sortable sc"
  shows "playerRank (sortBy byScoreDesc (generated @ [playerEntry sc])) = 1"
proof -
  let ?m = "sortBy byScoreDesc (generated @ [playerEntry sc])"
  have set: "set ?m = insert (playerEntry sc) (set generated)"
    unfolding set_sortBy by simp
  have "\<forall>e\<in>set (generated @ [playerEntry sc]). sortable (score e)"
    using assms by (auto simp: playerEntry_def)
  then have srt: "sortedDesc ?m" by (rule sortedDesc_sortBy)
  from set obtain h t where ht: "?m = h # t" by (cases ?m) auto
  have "h = playerEntry sc"
  proof (rule ccontr)
    assume ne: "h \<noteq> playerEntry sc"
    with set ht have hg: "h \<in> set generated" and "playerEntry sc \<in> set t" by auto
    from sortedDesc_head [OF srt [unfolded ht] this(2)]
    have "jle sc (score h)" by (simp add: playerEntry_def)
    moreover from assms(1) hg have "jlt (score h) sc" by simp
    ultimately show False by (simp add: jle_def)
  qed
  then have "findIndex (\<lambda>entry. username entry = Some ''YOU'') (h # t) = 0"
    by (simp add: findIndex_def playerEntry_def)
  then show ?thesis unfolding playerRank_def ht by simp
qed

lemma player_position:
  assumes "\<forall>e\<in>set generated. username e \<noteq> Some ''YOU''"
  shows "\<exists>k\<le>length generated.
           playerRank (sortBy byScoreDesc (generated @ [playerEntry sc])) = int k + 1
           \<and> sortBy byScoreDesc (generated @ [playerEntry sc]) ! k = playerEntry sc
           \<and> (\<forall>j<k. sortBy byScoreDesc (generated @ [playerEntry sc]) ! j \<noteq> playerEntry sc)"
proof -
  let ?m = "sortBy byScoreDesc (generated @ [playerEntry sc])"
  let ?P = "\<lambda>entry. username entry = Some ''YOU''"
  have set: "set ?m = insert (playerEntry sc) (set generated)"
    unfolding set_sortBy by simp
  have len: "length ?m = length generated + 1" unfolding length_sortBy by simp
  have "\<exists>x\<in>set ?m. ?P x" unfolding set by (simp add: playerEntry_def)
  from findIndex_first [OF this] obtain k where k: "k < length ?m"
    "findIndex ?P ?m = int k" "?P (?m ! k)" "\<forall>j<k. \<not> ?P (?m ! j)"
    by blast
  from k(1) have "?m ! k \<in> set ?m" by (rule nth_mem)
  with set k(3) assms have at: "?m ! k = playerEntry sc" by auto
  have "\<forall>j<k. ?m ! j \<noteq> playerEntry sc"
    using k(4) by (auto simp: playerEntry_def)
  with k(1,2) at len have "k \<le> length generated \<and> playerRank ?m = int k + 1
      \<and> ?m ! k = playerEntry sc \<and> (\<forall>j<k. ?m ! j \<noteq> playerEntry sc)"
    by (simp add: playerRank_def)
  then show ?thesis by blast
qed


lemma player_position_count:
  assumes "\<forall>e\<in>set generated. username e \<noteq> Some ''YOU''"
    and "\<forall>e\<in>set generated. sortable (score e)" and "sortable sc"
  shows "playerRank (sortBy byScoreDesc (generated @ [playerEntry sc])) =
           1 + int (length (filter (\<lambda>e. jle sc (score e)) generated))"
proof -
  let ?P = "\<lambda>entry. username entry = Some ''YOU''"
  have "findIndexFrom ?P (sortBy byScoreDesc (generated @ [playerEntry sc])) 0 =
          int (length (filter (\<lambda>e. jle sc (score e)) generated))"
    using assms(1,2)
  proof (induction generated)
    case Nil
    show ?case by (simp add: playerEntry_def)
  next
    case (Cons a es)
    let ?L = "sortBy byScoreDesc (es @ [playerEntry sc])"
    have set: "set ?L = insert (playerEntry sc) (set es)" unfolding set_sortBy by simp
    from Cons.prems have na: "\<not> ?P a" and rest: "\<forall>e\<in>set es. username e \<noteq> Some ''YOU''"
      and sa: "sortable (score a)" and ses: "\<forall>e\<in>set es. sortable (score e)"
      by simp_all
    from ses assms(3) have all: "\<forall>e\<in>set (es @ [playerEntry sc]). sortable (score e)"
      by (auto simp: playerEntry_def)
    then have 1: "sortedDesc ?L" by (rule sortedDesc_sortBy)
    have 2: "\<forall>x\<in>set ?L. ?P x \<longrightarrow> score x = sc"
      unfolding set using rest by (auto simp: playerEntry_def)
    have 3: "\<exists>x\<in>set ?L. ?P x" unfolding set by (simp add: playerEntry_def)
    from all have 4: "\<forall>x\<in>set ?L. sortable (score x)" unfolding set_sortBy .
    have "findIndexFrom ?P (sortBy byScoreDesc ((a # es) @ [playerEntry sc])) 0 =
            findIndexFrom ?P (insertSorted byScoreDesc a ?L) 0"
      by simp
    also have "\<dots> = findIndexFrom ?P ?L 0 + (if jle sc (score a) then 1 else 0)"
      using na 1 2 3 sa 4 by (rule findIndexFrom_insertSorted)
    also have "\<dots> = int (length (filter (\<lambda>e. jle sc (score e)) (a # es)))"
      using Cons.IH [OF rest ses] by simp
    finally show ?case .
  qed
  then show ?thesis by (simp add: playerRank_def findIndex_def)
qed

section \<open>Renders that change the status\<close>

lemma render_playing:
  assumes "status p = PLAYING" and "p \<noteq> props s" and "render pool rnd s p = Some s'"
  shows "generateLeaderboardEntries pool rnd (calls s) (scoreProp p)
           = Some (leaderboardRef s', calls s')
         \<and> leaderboard s' = leaderboardRef s'"
proof -
  from assms(2,3) have "seedEffect pool rnd (s\<lparr>props := p\<rparr>) = Some s'"
    by (simp add: render_def)
  from seedEffect_playing [OF _ this] assms(1) show ?thesis by simp
qed

lemma render_game_over:
  assumes "status p = GAME_OVER" and "p \<noteq> props s" and "render pool rnd s p = Some s'"
  shows "\<exists>generated.
           generateLeaderboardEntries pool rnd (calls s) (jmax (scoreProp p) (highScore p))
             = Some (generated, calls s')
           \<and> leaderboardRef s' = sortBy byScoreDesc (generated @ [playerEntry (scoreProp p)])
           \<and> leaderboard s' = leaderboardRef s'"
proof -
  from assms(2,3) have "seedEffect pool rnd (s\<lparr>props := p\<rparr>) = Some s'"
    by (simp add: render_def)
  from seedEffect_game_over [OF _ this] assms(1) show ?thesis by simp
qed

text \<open>A session with the concrete pool and source: mounted on the menu, a first run
  with one tick, the game over, a second run.\<close>

lemma mount_pool15_returns: "\<exists>s. mount pool15 rnd15 c p = Some s"
  using start_pool15_returns [of c p "[]"] by (simp add: start_Nil)

lemma session_two_runs:
  "\<exists>s0 s1 s3 s4.
     mount pool15 rnd15 0 pMenu = Some s0
     \<and> render pool15 rnd15 s0 pPlay = Some s1 \<and> props s1 = pPlay
     \<and> visibleStartIndex s1 = 0 \<and> length (leaderboardRef s1) = 15
     \<and> visibleStartIndex (tick pool15 rnd15 s1) = 1
     \<and> render pool15 rnd15 (tick pool15 rnd15 s1) pOver800 = Some s3 \<and> props s3 = pOver800
     \<and> visibleStartIndex s3 = 1
     \<and> render pool15 rnd15 s3 pAgain = Some s4 \<and> visibleStartIndex s4 = 1"
proof -
  from mount_pool15_returns obtain s0 where s0: "mount pool15 rnd15 0 pMenu = Some s0" by blast
  from mount_wellFormed [OF s0] have w0: "wellFormed s0" and v0: "visibleStartIndex s0 = 0"
    by simp_all
  from render_pool15_returns obtain s1 where s1: "render pool15 rnd15 s0 pPlay = Some s1" by blast
  from render_keeps [OF s1] v0 have p1: "props s1 = pPlay" and v1: "visibleStartIndex s1 = 0"
    by simp_all
  from render_wellFormed [OF w0 s1] p1 have l1: "length (leaderboardRef s1) = 15"
    by (simp add: wellFormed_def pPlay_def)
  let ?t = "tick pool15 rnd15 s1"
  from ticks_keep_15 [OF l1, where pool = pool15 and rnd = rnd15 and k = 1] have lt: "length (leaderboardRef ?t) = 15"
    by simp
  have "(1::int) smod 12 = 1 mod 12" by (rule smod_nonneg) simp_all
  with tick_window [of pool15 rnd15 s1] lt v1 have vt: "visibleStartIndex ?t = 1" by simp
  from render_pool15_returns obtain s3 where s3: "render pool15 rnd15 ?t pOver800 = Some s3"
    by blast
  from render_keeps [OF s3] vt have p3: "props s3 = pOver800" and v3: "visibleStartIndex s3 = 1"
    by simp_all
  from render_pool15_returns obtain s4 where s4: "render pool15 rnd15 s3 pAgain = Some s4"
    by blast
  from render_keeps [OF s4] v3 have v4: "visibleStartIndex s4 = 1" by simp
  from s0 s1 p1 v1 l1 vt s3 p3 v3 s4 v4 show ?thesis by blast
qed

text \<open>A session that ends at score 10.\<close>

lemma session_score_10:
  "\<exists>s0 s1 s2.
     mount pool15 rnd15 0 pMenu = Some s0
     \<and> render pool15 rnd15 s0 pPlay10 = Some s1 \<and> props s1 = pPlay10
     \<and> render pool15 rnd15 s1 pOver10 = Some s2
     \<and> playerEntry (Num 10) \<in> set (leaderboardRef s2)"
proof -
  from mount_pool15_returns obtain s0 where s0: "mount pool15 rnd15 0 pMenu = Some s0" by blast
  from render_pool15_returns obtain s1 where s1: "render pool15 rnd15 s0 pPlay10 = Some s1"
    by blast
  from render_keeps [OF s1] have p1: "props s1 = pPlay10" by simp
  from render_pool15_returns obtain s2 where s2: "render pool15 rnd15 s1 pOver10 = Some s2"
    by blast
  have "status pOver10 = GAME_OVER" "pOver10 \<noteq> props s1"
    by (simp_all add: p1 pOver10_def pPlay10_def)
  from render_game_over [OF this s2] obtain generated where
    "leaderboardRef s2 = sortBy byScoreDesc (generated @ [playerEntry (scoreProp pOver10)])"
    by blast
  then have "playerEntry (Num 10) \<in> set (leaderboardRef s2)"
    by (simp add: set_sortBy pOver10_def del: sortBy.simps)
  with s0 s1 p1 s2 show ?thesis by blast
qed

text \<open>The numbers of the concrete inputs are doubles.\<close>

lemma onGrid_numeral [simp]: "onGrid (numeral n)"
  using onGrid_int [of "numeral n"] by simp

lemma sortable_numeral [simp]: "sortable (Num (numeral n))"
  by (simp add: sortable_def)

lemma jsNumber_small:
  "jsNumber (Num 0)" "jsNumber (Num 10)" "jsNumber (Num 500)" "jsNumber (Num 800)"
  "jsNumber (Num 1000)"
  using isDouble_int [of 0] isDouble_int [of 10] isDouble_int [of 500] isDouble_int [of 800]
    isDouble_int [of 1000]
  by (simp_all add: jsNumber_def)

lemma finiteProps_examples:
  "finiteProps pMenu" "finiteProps pPlay" "finiteProps pOver800" "finiteProps pAgain"
  "finiteProps pPlay10" "finiteProps pOver10"
  by (simp_all add: finiteProps_def jsNumber_small pMenu_def pPlay_def pOver800_def pAgain_def
      pPlay10_def pOver10_def)

lemma sortable_store15: "\<forall>e\<in>set store15. sortable (score e)"
  by (simp add: store15_def)

section \<open>Live insertion\<close>



section \<open>What generateLeaderboardEntries returns\<close>

text \<open>
  C3, as amended. The claim quantifies over every random source, and for a source that
  keeps drawing a used name the call never returns (see the counterexample below). The
  call returns for every reference score and every source that is fair for a pool of at
  least 15 distinct names. Whenever it returns, for any source and any reference score,
  it returns exactly 15 entries; with \<open>base = referenceScore\<close> if \<open>referenceScore > 100\<close>
  and \<open>500\<close> otherwise, and \<open>variance = base * 0.8\<close>, the entries are, up to the order,
  those built from 15 draw positions, each at least three calls after the one before:
  the entry of position \<open>q\<close> has the score \<open>Math.max(50, Math.floor(base + (u - 0.3) *
  variance))\<close>, in double arithmetic, for the draw \<open>u = rnd q\<close>, and its \<open>isNew\<close> flag is set
  exactly when the next, separate draw \<open>rnd (q + 1)\<close> exceeds \<open>0.7\<close>, which a uniform draw
  does with probability 0.3. When the reference score is a number other than
  \<open>Infinity\<close> (\<open>NaN\<close> and \<open>-Infinity\<close> included: they give the base 500), the entries are in
  non-increasing score order and every score is at least 50. For the reference score
  \<open>Infinity\<close> the scores are \<open>Infinity\<close> or \<open>NaN\<close> and the order is not guaranteed.
\<close>

theorem generate_fifteen_sorted:
  "(fairSource pool rnd \<and> 15 \<le> card (set pool) \<longrightarrow>
      (\<exists>es c'. generateLeaderboardEntries pool rnd c referenceScore = Some (es, c')))
   \<and> (generateLeaderboardEntries pool rnd c referenceScore = Some (es, c') \<longrightarrow>
        length es = 15
        \<and> (\<exists>draws. length draws = 15
              \<and> mset es = mset (map (\<lambda>d.
                   \<lparr>username = fst d,
                    score = jmax (Num 50)
                      (jfloor (jadd (if jlt (Num 100) referenceScore then referenceScore else Num 500)
                         (jmul (jsub (Num (rnd (snd d))) (fl (3 / 10)))
                            (jmul (if jlt (Num 100) referenceScore then referenceScore else Num 500)
                               (fl (8 / 10)))))),
                    isNew = jlt (fl (7 / 10)) (Num (rnd (snd d + 1)))\<rparr>) draws)
              \<and> sorted_wrt (\<lambda>a b. snd a + 2 < snd b) draws
              \<and> (\<forall>d\<in>set draws. c < snd d \<and> snd d + 2 \<le> c'))
        \<and> (jsNumber referenceScore \<and> referenceScore \<noteq> PosInf \<longrightarrow>
              sortedDesc es \<and> (\<forall>e\<in>set es. jle (Num 50) (score e))))"
proof -
  have shape: "length es = 15
        \<and> (\<exists>draws. length draws = 15
              \<and> mset es = mset (map (\<lambda>d.
                   \<lparr>username = fst d,
                    score = jmax (Num 50)
                      (jfloor (jadd (if jlt (Num 100) referenceScore then referenceScore else Num 500)
                         (jmul (jsub (Num (rnd (snd d))) (fl (3 / 10)))
                            (jmul (if jlt (Num 100) referenceScore then referenceScore else Num 500)
                               (fl (8 / 10)))))),
                    isNew = jlt (fl (7 / 10)) (Num (rnd (snd d + 1)))\<rparr>) draws)
              \<and> sorted_wrt (\<lambda>a b. snd a + 2 < snd b) draws
              \<and> (\<forall>d\<in>set draws. c < snd d \<and> snd d + 2 \<le> c'))"
    if g: "generateLeaderboardEntries pool rnd c referenceScore = Some (es, c')"
  proof -
    from generateLoop_makes [OF g] obtain draws where
      len: "length draws = 15"
      and es: "es = sortBy byScoreDesc
                 (map (\<lambda>d. makeEntry referenceScore (fst d) (rnd (snd d)) (rnd (snd d + 1))) draws)"
      and each: "\<forall>d\<in>set draws. c < snd d \<and> snd d + 2 \<le> c'"
      and srt: "sorted_wrt (\<lambda>a b. snd a + 2 < snd b) draws"
      by blast
    have 1: "length es = 15" unfolding es length_sortBy using len by simp
    have 3: "mset es = mset (map (\<lambda>d.
                   \<lparr>username = fst d,
                    score = jmax (Num 50)
                      (jfloor (jadd (if jlt (Num 100) referenceScore then referenceScore else Num 500)
                         (jmul (jsub (Num (rnd (snd d))) (fl (3 / 10)))
                            (jmul (if jlt (Num 100) referenceScore then referenceScore else Num 500)
                               (fl (8 / 10)))))),
                    isNew = jlt (fl (7 / 10)) (Num (rnd (snd d + 1)))\<rparr>) draws)"
      unfolding es mset_sortBy makeEntry_def Let_def ..
    from 1 len 3 srt each show ?thesis by blast
  qed
  have ret: "\<exists>es c'. generateLeaderboardEntries pool rnd c referenceScore = Some (es, c')"
    if "fairSource pool rnd \<and> 15 \<le> card (set pool)"
    using that generate_returns [of pool rnd c referenceScore] by blast
  have ord: "sortedDesc es \<and> (\<forall>e\<in>set es. jle (Num 50) (score e))"
    if "generateLeaderboardEntries pool rnd c referenceScore = Some (es, c')"
      and "jsNumber referenceScore \<and> referenceScore \<noteq> PosInf"
    using generate_scores [OF that(1)] that(2) by blast
  from shape ret ord show ?thesis by blast
qed

theorem generate_fifteen_sorted_witness:
  "fairSource pool15 rnd15 \<and> 15 \<le> card (set pool15)
   \<and> jsNumber (Num 1000) \<and> Num 1000 \<noteq> PosInf
   \<and> (\<exists>es c'. generateLeaderboardEntries pool15 rnd15 0 (Num 1000) = Some (es, c')
          \<and> length es = 15 \<and> sortedDesc es \<and> list_all (\<lambda>e. jle (Num 50) (score e)) es)"
proof -
  have c: "15 \<le> card (set pool15)" by (simp add: card_pool15)
  have n: "jsNumber (Num 1000)" by (rule jsNumber_small)
  from generate_returns [OF fairSource_rnd15 c] obtain es c' where
    g: "generateLeaderboardEntries pool15 rnd15 0 (Num 1000) = Some (es, c')" by blast
  from generate_fifteen_sorted [of pool15 rnd15 0 "Num 1000" es c'] g n
  have "length es = 15 \<and> sortedDesc es \<and> (\<forall>e\<in>set es. jle (Num 50) (score e))" by blast
  then have "length es = 15 \<and> sortedDesc es \<and> list_all (\<lambda>e. jle (Num 50) (score e)) es"
    by (simp add: list_all_iff)
  with g have "\<exists>es c'. generateLeaderboardEntries pool15 rnd15 0 (Num 1000) = Some (es, c')
          \<and> length es = 15 \<and> sortedDesc es \<and> list_all (\<lambda>e. jle (Num 50) (score e)) es"
    by blast
  with fairSource_rnd15 c n show ?thesis by simp
qed

text \<open>The claim as stated fails: the pool has 15 distinct names, the source is
  constantly one half, and the call does not return.\<close>

theorem generate_every_source_counterexample:
  "generateLeaderboardEntries pool15 rndHalf 0 (Num 1000) = None"
proof -
  have "generateLoop pool15 rndHalf (Num 1000) 15 [] {} 0 = None"
    using generateLoop_rndHalf [of "Num 1000" 13 "[]" 0] by (simp add: eval_nat_numeral)
  then show ?thesis by (simp add: generateLeaderboardEntries_def)
qed

section \<open>Termination of the name drawing\<close>

text \<open>
  C9, as amended. The name drawing of lines 32-35 draws again until the name is unused,
  with no bound on the number of draws, so whether it returns depends on the source and not
  only on the size of the pool. It returns, with an unused name, in every iteration of one
  call (fewer than 15 names used so far) provided the pool holds at least 15 distinct names
  and the source is fair for the pool, fairness being judged by the index the code itself
  computes, \<open>Math.floor(Math.random() * FICTIONAL_USERNAMES.length)\<close> in double arithmetic;
  then all 15 iterations of the loop return.
\<close>

theorem name_drawing_returns_fair:
  assumes "fairSource pool rnd" and "15 \<le> card (set pool)"
    and "finite usedNames" and "card usedNames < 15"
  shows "(\<exists>u pos'. drawName pool rnd usedNames pos = Some (u, pos') \<and> u \<notin> usedNames \<and> pos < pos')
     \<and> (\<exists>r. generateLoop pool rnd playerScore 15 [] {} pos = Some r)"
proof -
  from assms(2,4) have "card usedNames < card (set pool)" by simp
  from pool_has_unused [OF assms(3) this]
  obtain i where "i < length pool" "Some (pool ! i) \<notin> usedNames" by blast
  from drawName_returns [OF assms(1) this]
  obtain u pos' where dn: "drawName pool rnd usedNames pos = Some (u, pos')" by (metis surj_pair)
  from drawName_Some [OF dn] dn
  have "\<exists>u pos'. drawName pool rnd usedNames pos = Some (u, pos') \<and> u \<notin> usedNames \<and> pos < pos'"
    by blast
  moreover have "\<exists>r. generateLoop pool rnd playerScore 15 [] {} pos = Some r"
    using assms(1,2) by (intro generateLoop_returns) simp_all
  ultimately show ?thesis by simp
qed

theorem name_drawing_returns_fair_witness:
  "fairSource pool15 rnd15 \<and> 15 \<le> card (set pool15)
   \<and> finite {Some ''Hal''} \<and> card {Some ''Hal''} < 15
   \<and> drawName pool15 rnd15 {Some ''Hal''} 1 = Some (Some ''Oz'', 3)"
proof -
  have c: "15 \<le> card (set pool15)" by (simp add: card_pool15)
  have f: "finite {Some ''Hal''}" by simp
  have k: "card {Some ''Hal''} < 15" by simp
  have v: "drawName pool15 rnd15 {Some ''Hal''} 1 = Some (Some ''Oz'', 3)"
    by (simp add: drawName_def redrawName.simps js_eval fl_eval pool15_def rnd15_def)
  from name_drawing_returns_fair [OF fairSource_rnd15 c f k, of 1]
  have "\<exists>u pos'. drawName pool15 rnd15 {Some ''Hal''} 1 = Some (u, pos')" by blast
  with fairSource_rnd15 c f k v show ?thesis by simp
qed

text \<open>The claim as stated fails: with 15 distinct names in the pool and the source
  constantly one half, the first iteration draws the name at index 7, and the second
  iteration, drawing at call 3 with that name used, never returns.\<close>

theorem name_drawing_counterexample:
  "length pool15 = 15 \<and> distinct pool15
   \<and> drawName pool15 rndHalf {} 0 = Some (Some ''Hal'', 1)
   \<and> drawName pool15 rndHalf {Some ''Hal''} 3 = None"
proof -
  have first: "drawName pool15 rndHalf {} 0 = Some (Some ''Hal'', 1)"
    unfolding drawName_def by (subst redrawName.simps) (simp add: pickName_rndHalf)
  have "drawName pool15 rndHalf {Some ''Hal''} 3 = None"
    unfolding drawName_def by (rule redrawName_None) (simp_all add: pickName_rndHalf)
  with first distinct_pool15 show ?thesis by (simp add: pool15_def)
qed

section \<open>Order of the snapshots\<close>

text \<open>With the reference score \<open>Infinity\<close>, the base and the variance are \<open>Infinity\<close>: a
  draw above 0.3 gives the score \<open>Infinity\<close> and a draw below it the score \<open>NaN\<close>
  (\<open>Infinity - Infinity\<close>). The first three iterations for \<open>pool15\<close> and \<open>rnd15\<close>.\<close>

lemma generate_infinity_prefix:
  "generateLoop pool15 rnd15 PosInf 15 [] {} 0 =
     generateLoop pool15 rnd15 PosInf 12
       [makeEntry PosInf (Some ''Ada'') (rnd15 1) (rnd15 2),
        makeEntry PosInf (Some ''Gus'') (rnd15 4) (rnd15 5),
        makeEntry PosInf (Some ''Max'') (rnd15 7) (rnd15 8)]
       {Some ''Max'', Some ''Gus'', Some ''Ada''} 9"
proof -
  have d1: "drawName pool15 rnd15 {} 0 = Some (Some ''Ada'', 1)"
    by (simp add: drawName_def redrawName.simps js_eval fl_eval pool15_def rnd15_def)
  have d2: "drawName pool15 rnd15 {Some ''Ada''} 3 = Some (Some ''Gus'', 4)"
    by (simp add: drawName_def redrawName.simps js_eval fl_eval pool15_def rnd15_def)
  have d3: "drawName pool15 rnd15 {Some ''Gus'', Some ''Ada''} 6 = Some (Some ''Max'', 7)"
    by (simp add: drawName_def redrawName.simps js_eval fl_eval pool15_def rnd15_def)
  let ?e1 = "makeEntry PosInf (Some ''Ada'') (rnd15 1) (rnd15 2)"
  let ?e2 = "makeEntry PosInf (Some ''Gus'') (rnd15 4) (rnd15 5)"
  let ?e3 = "makeEntry PosInf (Some ''Max'') (rnd15 7) (rnd15 8)"
  have "generateLoop pool15 rnd15 PosInf 15 [] {} 0 =
          generateLoop pool15 rnd15 PosInf (Suc 14) [] {} 0"
    by simp
  also have "\<dots> = generateLoop pool15 rnd15 PosInf 14 [?e1] {Some ''Ada''} 3"
    unfolding generateLoop.simps d1 by (simp add: numeral_2_eq_2 numeral_3_eq_3)
  also have "\<dots> = generateLoop pool15 rnd15 PosInf (Suc 13) [?e1] {Some ''Ada''} 3"
    by simp
  also have "\<dots> = generateLoop pool15 rnd15 PosInf 13 [?e1, ?e2] {Some ''Gus'', Some ''Ada''} 6"
    unfolding generateLoop.simps d2 by simp
  also have "\<dots> = generateLoop pool15 rnd15 PosInf (Suc 12) [?e1, ?e2]
                       {Some ''Gus'', Some ''Ada''} 6"
    by simp
  also have "\<dots> = generateLoop pool15 rnd15 PosInf 12 [?e1, ?e2, ?e3]
                       {Some ''Max'', Some ''Gus'', Some ''Ada''} 9"
    unfolding generateLoop.simps d3 by simp
  finally show ?thesis .
qed

lemma score_infinity_NaN: "score (makeEntry PosInf (Some ''Max'') (rnd15 7) (rnd15 8)) = NaN"
  by (simp add: makeEntry_def Let_def js_eval fl_eval rnd15_def)

lemma generate_infinity:
  "\<exists>es c'. generateLeaderboardEntries pool15 rnd15 0 PosInf = Some (es, c') \<and> \<not> sortedDesc es"
proof -
  let ?acc = "[makeEntry PosInf (Some ''Ada'') (rnd15 1) (rnd15 2),
        makeEntry PosInf (Some ''Gus'') (rnd15 4) (rnd15 5),
        makeEntry PosInf (Some ''Max'') (rnd15 7) (rnd15 8)]"
  let ?used = "{Some ''Max'', Some ''Gus'', Some ''Ada''}"
  have "\<exists>r. generateLoop pool15 rnd15 PosInf 12 ?acc ?used 9 = Some r"
    by (rule generateLoop_returns [OF fairSource_rnd15]) (simp_all add: card_pool15)
  then obtain raw c' where
    loop: "generateLoop pool15 rnd15 PosInf 12 ?acc ?used 9 = Some (raw, c')" by auto
  from generateLoop_prefix [OF loop]
  have mem: "makeEntry PosInf (Some ''Max'') (rnd15 7) (rnd15 8) \<in> set raw"
    and len: "length raw = 15"
    by simp_all
  let ?es = "sortBy byScoreDesc raw"
  from loop have g: "generateLeaderboardEntries pool15 rnd15 0 PosInf = Some (?es, c')"
    by (simp add: generateLeaderboardEntries_def generate_infinity_prefix)
  have "\<not> sortedDesc ?es"
  proof
    assume "sortedDesc ?es"
    from sortedDesc_no_NaN [OF this] len mem score_infinity_NaN show False
      by (auto simp: length_sortBy set_sortBy)
  qed
  with g show ?thesis by blast
qed

text \<open>
  C6, as amended. The claim fails when the score prop is not finite: for the reference
  score \<open>Infinity\<close> the generated scores are \<open>Infinity\<close> and \<open>NaN\<close>, the comparator returns
  \<open>NaN\<close> and the sort leaves the entries as they were generated (the counterexample
  below). Every snapshot is in descending (non-strict) score order after every operation
  that creates or changes it, provided the numbers involved are ones the comparator
  orders: what \<open>generateLeaderboardEntries\<close> returns for a reference score that is a
  number other than \<open>Infinity\<close>; the store after a live insertion and after the player's
  entry is pushed and the array sorted at game over, when no score involved is \<open>NaN\<close>;
  and therefore the store and the published leaderboard in every state the component
  goes through, when the props \<open>score\<close> and \<open>highScore\<close> of every render are finite numbers
  and the source draws from \<open>[0, 1)\<close>.
\<close>

theorem snapshots_sorted:
  "(generateLeaderboardEntries pool rnd c referenceScore = Some (es, c')
      \<and> jsNumber referenceScore \<and> referenceScore \<noteq> PosInf \<longrightarrow> sortedDesc es)
   \<and> ((\<forall>e\<in>set (newEntry # take 14 store). sortable (score e)) \<longrightarrow>
        sortedDesc (insertLive newEntry store))
   \<and> ((\<forall>e\<in>set generated. sortable (score e)) \<and> sortable sc \<longrightarrow>
        sortedDesc (sortBy byScoreDesc (generated @ [playerEntry sc])))
   \<and> (start pool rnd c0 p evs = Some s \<and> finiteProps p \<and> (\<forall>ev\<in>set evs. finiteEvent ev)
        \<and> unitSource rnd \<longrightarrow>
        sortedDesc (leaderboardRef s) \<and> leaderboard s = leaderboardRef s)"
proof -
  have 1: "sortedDesc es"
    if "generateLeaderboardEntries pool rnd c referenceScore = Some (es, c')"
      and "jsNumber referenceScore" and "referenceScore \<noteq> PosInf"
    using generate_scores [OF that] by simp
  have 2: "sortedDesc (insertLive newEntry store)"
    if "\<forall>e\<in>set (newEntry # take 14 store). sortable (score e)"
    unfolding insertLive_def using that by (rule sortedDesc_sortBy)
  have 3: "sortedDesc (sortBy byScoreDesc (generated @ [playerEntry sc]))"
    if "\<forall>e\<in>set generated. sortable (score e)" and "sortable sc"
    using that by (intro sortedDesc_sortBy) (auto simp: playerEntry_def)
  have 4: "sortedDesc (leaderboardRef s) \<and> leaderboard s = leaderboardRef s"
    if "start pool rnd c0 p evs = Some s" and "finiteProps p"
      and "\<forall>ev\<in>set evs. finiteEvent ev" and "unitSource rnd"
    using start_scoresOk [OF that] start_wellFormed [OF that(1)]
    by (simp add: scoresOk_def wellFormed_def)
  from 1 2 3 4 show ?thesis by blast
qed

theorem snapshots_sorted_witness:
  "jsNumber (Num 1000) \<and> Num 1000 \<noteq> PosInf
   \<and> finiteProps pMenu \<and> list_all finiteEvent [Render pPlay, Tick] \<and> unitSource rnd15
   \<and> (\<exists>es c'. generateLeaderboardEntries pool15 rnd15 0 (Num 1000) = Some (es, c')
          \<and> sortedDesc es)
   \<and> (\<exists>s. start pool15 rnd15 0 pMenu [Render pPlay, Tick] = Some s
          \<and> sortedDesc (leaderboardRef s))"
proof -
  have n: "jsNumber (Num 1000)" by (rule jsNumber_small)
  have fe: "\<forall>ev\<in>set [Render pPlay, Tick]. finiteEvent ev" by (simp add: finiteProps_examples)
  then have l: "list_all finiteEvent [Render pPlay, Tick]" by simp
  have c: "15 \<le> card (set pool15)" by (simp add: card_pool15)
  from generate_returns [OF fairSource_rnd15 c] obtain es c' where
    g: "generateLeaderboardEntries pool15 rnd15 0 (Num 1000) = Some (es, c')" by blast
  from start_pool15_returns obtain s where
    s: "start pool15 rnd15 0 pMenu [Render pPlay, Tick] = Some s" by blast
  from snapshots_sorted [of pool15 rnd15 0 "Num 1000" es c' _ _ _ _ 0 pMenu "[Render pPlay, Tick]" s]
    g n s finiteProps_examples(1) fe unitSource_rnd15
  have "sortedDesc es \<and> sortedDesc (leaderboardRef s)" by blast
  with g s have "(\<exists>es c'. generateLeaderboardEntries pool15 rnd15 0 (Num 1000) = Some (es, c')
          \<and> sortedDesc es)
   \<and> (\<exists>s. start pool15 rnd15 0 pMenu [Render pPlay, Tick] = Some s
          \<and> sortedDesc (leaderboardRef s))" by blast
  with n l finiteProps_examples(1) unitSource_rnd15 show ?thesis by simp
qed

text \<open>The claim as stated fails: for the reference score \<open>Infinity\<close>, what
  \<open>generateLeaderboardEntries\<close> returns is not in descending order.\<close>

theorem snapshot_order_counterexample:
  "map_option (sortedDesc \<circ> fst) (generateLeaderboardEntries pool15 rnd15 0 PosInf) = Some False"
proof -
  from generate_infinity obtain es c' where
    "generateLeaderboardEntries pool15 rnd15 0 PosInf = Some (es, c')" "\<not> sortedDesc es"
    by blast
  then show ?thesis by simp
qed

section \<open>The floor of 50\<close>

text \<open>
  C1, as amended. The floor of 50 is applied where a score is synthesized, in
  \<open>generateLeaderboardEntries\<close> and in the live insertion, and not to the player's own
  entry pushed at game over, which carries the raw score. Moreover \<open>Math.max(50, x)\<close> is
  \<open>NaN\<close> when \<open>x\<close> is, so the floor presupposes that the props are finite. When the props
  \<open>score\<close> and \<open>highScore\<close> of every render are finite numbers and the source draws from
  \<open>[0, 1)\<close>, then in every state the component goes through, every entry of the store is
  either at least 50 or is the player's own entry (name \<open>YOU\<close>, flagged new); while the
  status is \<open>PLAYING\<close>, that is after generation and after every live insertion, every
  entry is at least 50; and the published leaderboard is the store.
\<close>

theorem scores_floored_except_player:
  assumes "start pool rnd c p evs = Some s"
    and "finiteProps p" and "\<forall>ev\<in>set evs. finiteEvent ev" and "unitSource rnd"
  shows "(\<forall>e\<in>set (leaderboardRef s). jle (Num 50) (score e) \<or> e = playerEntry (score e))
     \<and> (status (props s) = PLAYING \<longrightarrow> (\<forall>e\<in>set (leaderboardRef s). jle (Num 50) (score e)))
     \<and> leaderboard s = leaderboardRef s"
  using start_scoresOk [OF assms] start_wellFormed [OF assms(1)]
  by (simp add: scoresOk_def wellFormed_def)

theorem scores_floored_except_player_witness:
  "finiteProps pMenu \<and> list_all finiteEvent [Render pPlay, Tick] \<and> unitSource rnd15
   \<and> (\<exists>s. start pool15 rnd15 0 pMenu [Render pPlay, Tick] = Some s
          \<and> status (props s) = PLAYING
          \<and> leaderboard s = leaderboardRef s
          \<and> length (leaderboardRef s) = 15
          \<and> list_all (\<lambda>e. jle (Num 50) (score e)) (leaderboardRef s))"
proof -
  have fe: "\<forall>ev\<in>set [Render pPlay, Tick]. finiteEvent ev" by (simp add: finiteProps_examples)
  then have l: "list_all finiteEvent [Render pPlay, Tick]" by simp
  from start_pool15_returns obtain t where
    t: "start pool15 rnd15 0 pMenu [Render pPlay] = Some t" by blast
  from t have "\<exists>s0. mount pool15 rnd15 0 pMenu = Some s0 \<and> render pool15 rnd15 s0 pPlay = Some t"
    by (auto simp: start_def step_def split: option.splits)
  then obtain s0 where "render pool15 rnd15 s0 pPlay = Some t" by blast
  from render_keeps [OF this] have pt: "status (props t) = PLAYING" by (simp add: pPlay_def)
  let ?s = "tick pool15 rnd15 t"
  have "start pool15 rnd15 0 pMenu ([Render pPlay] @ [Tick]) = Some ?s"
    unfolding start_snoc using t pt by (simp add: step_def)
  then have s: "start pool15 rnd15 0 pMenu [Render pPlay, Tick] = Some ?s" by simp
  have ps: "status (props ?s) = PLAYING" using pt by (simp add: tick_props)
  from start_wellFormed [OF s] ps have len: "length (leaderboardRef ?s) = 15"
    by (simp add: wellFormed_def)
  from scores_floored_except_player [OF s finiteProps_examples(1) fe unitSource_rnd15] ps
  have "leaderboard ?s = leaderboardRef ?s
        \<and> list_all (\<lambda>e. jle (Num 50) (score e)) (leaderboardRef ?s)"
    by (simp add: list_all_iff)
  with s ps len have "\<exists>s. start pool15 rnd15 0 pMenu [Render pPlay, Tick] = Some s
          \<and> status (props s) = PLAYING
          \<and> leaderboard s = leaderboardRef s
          \<and> length (leaderboardRef s) = 15
          \<and> list_all (\<lambda>e. jle (Num 50) (score e)) (leaderboardRef s)"
    by blast
  with finiteProps_examples(1) l unitSource_rnd15 show ?thesis by simp
qed

text \<open>The claim as stated fails at the player's own entry: mounting on the menu, a render
  with status \<open>PLAYING\<close> and score 10 and then one with status \<open>GAME_OVER\<close> and score 10
  leave a store that holds the player's entry, with score 10.\<close>

theorem player_entry_below_floor_counterexample:
  "map_option (\<lambda>s. playerEntry (Num 10) \<in> set (leaderboardRef s))
     (start pool15 rnd15 0 pMenu [Render pPlay10, Render pOver10]) = Some True
   \<and> jlt (score (playerEntry (Num 10))) (Num 50)"
proof -
  from session_score_10 obtain s0 s1 s2 where
    "mount pool15 rnd15 0 pMenu = Some s0" "render pool15 rnd15 s0 pPlay10 = Some s1"
    "render pool15 rnd15 s1 pOver10 = Some s2"
    "playerEntry (Num 10) \<in> set (leaderboardRef s2)"
    by blast
  then have "map_option (\<lambda>s. playerEntry (Num 10) \<in> set (leaderboardRef s))
     (start pool15 rnd15 0 pMenu [Render pPlay10, Render pOver10]) = Some True"
    by (simp add: start_def step_def)
  then show ?thesis by (simp add: playerEntry_def jlt_def)
qed

section \<open>Entering the playing phase\<close>

text \<open>
  C4, as amended. On every render that takes the status from a non-playing one (menu or
  game over) to \<open>PLAYING\<close>: with a fair source and a pool of at least 15 distinct names the
  render returns; and whenever it returns, the store is replaced by what
  \<open>generateLeaderboardEntries\<close> returns for the current score and published, and
  \<open>visibleStartIndex\<close> keeps the value it had: the code never resets it. It is 0 when the
  component mounts, so it is 0 on entering the first run, and on entering a later run it
  is whatever the ticks of the earlier runs left.
\<close>

theorem entering_playing_keeps_window:
  assumes "status (props s) \<noteq> PLAYING" and "status p = PLAYING"
  shows "(fairSource pool rnd \<and> 15 \<le> card (set pool) \<longrightarrow> (\<exists>s'. render pool rnd s p = Some s'))
     \<and> (render pool rnd s p = Some s' \<longrightarrow>
          visibleStartIndex s' = visibleStartIndex s
          \<and> props s' = p
          \<and> generateLeaderboardEntries pool rnd (calls s) (scoreProp p)
               = Some (leaderboardRef s', calls s')
          \<and> leaderboard s' = leaderboardRef s')
     \<and> (mount pool rnd c0 p0 = Some s0 \<longrightarrow> visibleStartIndex s0 = 0)"
proof -
  from assms have ne: "p \<noteq> props s" by auto
  have 1: "\<exists>s'. render pool rnd s p = Some s'" if "fairSource pool rnd \<and> 15 \<le> card (set pool)"
    using that render_returns [of pool rnd s p] by blast
  have 2: "visibleStartIndex s' = visibleStartIndex s
          \<and> props s' = p
          \<and> generateLeaderboardEntries pool rnd (calls s) (scoreProp p)
               = Some (leaderboardRef s', calls s')
          \<and> leaderboard s' = leaderboardRef s'"
    if r: "render pool rnd s p = Some s'"
    using render_keeps [OF r] render_playing [OF assms(2) ne r] by simp
  have 3: "visibleStartIndex s0 = 0" if "mount pool rnd c0 p0 = Some s0"
    using mount_wellFormed [OF that] by simp
  from 1 2 3 show ?thesis by blast
qed

theorem entering_playing_keeps_window_witness:
  "status pMenu \<noteq> PLAYING \<and> status pPlay = PLAYING
   \<and> status pOver800 \<noteq> PLAYING \<and> status pAgain = PLAYING
   \<and> fairSource pool15 rnd15 \<and> 15 \<le> card (set pool15)
   \<and> (\<exists>s0 s1 s3 s4.
          mount pool15 rnd15 0 pMenu = Some s0
          \<and> render pool15 rnd15 s0 pPlay = Some s1
          \<and> visibleStartIndex s1 = 0
          \<and> visibleStartIndex (tick pool15 rnd15 s1) = 1
          \<and> render pool15 rnd15 (tick pool15 rnd15 s1) pOver800 = Some s3
          \<and> render pool15 rnd15 s3 pAgain = Some s4
          \<and> visibleStartIndex s4 = 1)"
proof -
  have st: "status pMenu \<noteq> PLAYING" "status pPlay = PLAYING"
    "status pOver800 \<noteq> PLAYING" "status pAgain = PLAYING"
    by (simp_all add: pMenu_def pPlay_def pOver800_def pAgain_def)
  have c: "15 \<le> card (set pool15)" by (simp add: card_pool15)
  from mount_pool15_returns obtain s0 where s0: "mount pool15 rnd15 0 pMenu = Some s0" by blast
  from s0 have p0: "props s0 = pMenu"
    by (auto simp: mount_def dest: seedEffect_keeps)
  with st(1) have n0: "status (props s0) \<noteq> PLAYING" by simp
  note first = entering_playing_keeps_window [OF n0 st(2),
      where pool = pool15 and rnd = rnd15 and ?c0.0 = 0 and ?p0.0 = pMenu and ?s0.0 = s0]
  from first fairSource_rnd15 c obtain s1 where s1: "render pool15 rnd15 s0 pPlay = Some s1"
    by blast
  from entering_playing_keeps_window [OF n0 st(2),
      where pool = pool15 and rnd = rnd15 and ?c0.0 = 0 and ?p0.0 = pMenu and ?s0.0 = s0
        and s' = s1] s1 s0
  have v1: "visibleStartIndex s1 = 0"
    and g1: "generateLeaderboardEntries pool15 rnd15 (calls s0) (scoreProp pPlay)
               = Some (leaderboardRef s1, calls s1)"
    by simp_all
  from generate_shape [OF g1] have l1: "length (leaderboardRef s1) = 15" by simp
  let ?t = "tick pool15 rnd15 s1"
  from ticks_keep_15 [OF l1, where pool = pool15 and rnd = rnd15 and k = 1]
  have lt: "length (leaderboardRef ?t) = 15" by simp
  have "(1::int) smod 12 = 1 mod 12" by (rule smod_nonneg) simp_all
  with tick_window [of pool15 rnd15 s1] lt v1 have vt: "visibleStartIndex ?t = 1" by simp
  from render_pool15_returns obtain s3 where s3: "render pool15 rnd15 ?t pOver800 = Some s3"
    by blast
  from render_keeps [OF s3] vt st(3)
  have v3: "visibleStartIndex s3 = 1" and n3: "status (props s3) \<noteq> PLAYING" by simp_all
  note again = entering_playing_keeps_window [OF n3 st(4),
      where pool = pool15 and rnd = rnd15 and ?c0.0 = 0 and ?p0.0 = pMenu and ?s0.0 = s0]
  from again fairSource_rnd15 c obtain s4 where s4: "render pool15 rnd15 s3 pAgain = Some s4"
    by blast
  from entering_playing_keeps_window [OF n3 st(4),
      where pool = pool15 and rnd = rnd15 and ?c0.0 = 0 and ?p0.0 = pMenu and ?s0.0 = s0
        and s' = s4] s4 v3
  have v4: "visibleStartIndex s4 = 1" by simp
  from s0 s1 v1 vt s3 s4 v4 have "\<exists>s0 s1 s3 s4.
          mount pool15 rnd15 0 pMenu = Some s0
          \<and> render pool15 rnd15 s0 pPlay = Some s1
          \<and> visibleStartIndex s1 = 0
          \<and> visibleStartIndex (tick pool15 rnd15 s1) = 1
          \<and> render pool15 rnd15 (tick pool15 rnd15 s1) pOver800 = Some s3
          \<and> render pool15 rnd15 s3 pAgain = Some s4
          \<and> visibleStartIndex s4 = 1"
    by blast
  with st fairSource_rnd15 c show ?thesis by simp
qed

text \<open>The claim as stated fails: nothing resets \<open>visibleStartIndex\<close>. After one tick in
  the first run it is 1, and it is still 1 after the game ends and a second run begins.\<close>

theorem window_not_reset_counterexample:
  "map_option visibleStartIndex
     (start pool15 rnd15 0 pMenu [Render pPlay, Tick, Render pOver800, Render pAgain]) = Some 1"
proof -
  from session_two_runs obtain s0 s1 s3 s4 where
    "mount pool15 rnd15 0 pMenu = Some s0"
    "render pool15 rnd15 s0 pPlay = Some s1" "props s1 = pPlay"
    "render pool15 rnd15 (tick pool15 rnd15 s1) pOver800 = Some s3"
    "render pool15 rnd15 s3 pAgain = Some s4" "visibleStartIndex s4 = 1"
    by blast
  then show ?thesis by (simp add: start_def step_def pPlay_def)
qed

section \<open>Rotation of the window\<close>

text \<open>
  C5. Take any state of the component, let \<open>N\<close> be the size of its store and
  \<open>M = max 1 (N - 3)\<close> the modulus of line 113, suppose that the window start is in range,
  \<open>0 \<le> visibleStartIndex < M\<close>, and that the store keeps the size \<open>N\<close> through the next \<open>M\<close>
  ticks. Then after \<open>k \<le> M\<close> ticks the window start is \<open>(visibleStartIndex + k) mod M\<close>: after
  exactly \<open>M\<close> ticks it is back at its value, and after no smaller positive number of
  ticks. The window start is in range in every state the component reaches in which the
  status is \<open>PLAYING\<close>, the only states in which ticks happen.
\<close>

theorem window_rotation_period:
  assumes "0 \<le> visibleStartIndex s" and "visibleStartIndex s < int (windowPeriod s)"
    and "\<forall>k\<le>windowPeriod s.
           length (leaderboardRef ((tick pool rnd ^^ k) s)) = length (leaderboardRef s)"
  shows "visibleStartIndex ((tick pool rnd ^^ windowPeriod s) s) = visibleStartIndex s
     \<and> (\<forall>k. 0 < k \<and> k < windowPeriod s \<longrightarrow>
            visibleStartIndex ((tick pool rnd ^^ k) s) \<noteq> visibleStartIndex s)
     \<and> (\<forall>k\<le>windowPeriod s.
            visibleStartIndex ((tick pool rnd ^^ k) s)
              = (visibleStartIndex s + int k) mod int (windowPeriod s))
     \<and> int (windowPeriod s) = max 1 (int (length (leaderboardRef s)) - 3)
     \<and> (start pool rnd c p evs = Some t \<and> status (props t) = PLAYING \<longrightarrow>
            0 \<le> visibleStartIndex t \<and> visibleStartIndex t < int (windowPeriod t))"
proof -
  let ?N = "length (leaderboardRef s)"
  let ?M = "max 1 (int ?N - 3)"
  have M: "int (windowPeriod s) = ?M" by (simp add: windowPeriod_def)
  from assms(1,2) have v: "0 \<le> visibleStartIndex s" "visibleStartIndex s < ?M"
    unfolding M by simp_all
  have at: "visibleStartIndex ((tick pool rnd ^^ k) s) = (visibleStartIndex s + int k) mod ?M"
    if "k \<le> windowPeriod s" for k
    using v assms(3) that by (intro ticks_window) simp_all
  have 1: "visibleStartIndex ((tick pool rnd ^^ windowPeriod s) s) = visibleStartIndex s"
    using at [of "windowPeriod s"] window_returns(1) [OF v] M by simp
  have 2: "visibleStartIndex ((tick pool rnd ^^ k) s) \<noteq> visibleStartIndex s"
    if "0 < k \<and> k < windowPeriod s" for k
    using at [of k] window_returns(2) [OF v, of "int k"] M that by simp
  have 3: "visibleStartIndex ((tick pool rnd ^^ k) s)
              = (visibleStartIndex s + int k) mod int (windowPeriod s)"
    if "k \<le> windowPeriod s" for k
    unfolding M using that by (rule at)
  have 4: "0 \<le> visibleStartIndex t \<and> visibleStartIndex t < int (windowPeriod t)"
    if "start pool rnd c p evs = Some t \<and> status (props t) = PLAYING"
    using start_wellFormed [of pool rnd c p evs t] that
    by (simp add: wellFormed_def windowPeriod_def)
  from 1 2 3 M 4 show ?thesis by blast
qed

theorem window_rotation_period_witness:
  "windowPeriod (sWindow 2 0) = 1
   \<and> visibleStartIndex ((tick pool15 rndQuarter ^^ 1) (sWindow 2 0)) = 0
   \<and> windowPeriod (sWindow 8 4) = 5
   \<and> visibleStartIndex ((tick pool15 rndQuarter ^^ 5) (sWindow 8 4)) = 4
   \<and> visibleStartIndex ((tick pool15 rndQuarter ^^ 2) (sWindow 8 4)) \<noteq> 4
   \<and> windowPeriod (sWindow 15 3) = 12
   \<and> visibleStartIndex ((tick pool15 rnd15 ^^ 12) (sWindow 15 3)) = 3
   \<and> visibleStartIndex ((tick pool15 rnd15 ^^ 5) (sWindow 15 3)) \<noteq> 3"
proof -
  have len: "length (leaderboardRef (sWindow n v)) = min 15 n" for n v
    by (simp add: sWindow_def store15_def)
  have vsi: "visibleStartIndex (sWindow n v) = v" for n v
    by (simp add: sWindow_def)
  have quarter: "\<forall>n. \<not> jlt (Num (1 / 2)) (Num (rndQuarter n))"
    by (simp add: rndQuarter_def jlt_def)
  have p2: "windowPeriod (sWindow 2 0) = 1" and p8: "windowPeriod (sWindow 8 4) = 5"
    and p15: "windowPeriod (sWindow 15 3) = 12"
    by (simp_all add: windowPeriod_def len)
  have k2: "\<forall>k\<le>windowPeriod (sWindow 2 0).
      length (leaderboardRef ((tick pool15 rndQuarter ^^ k) (sWindow 2 0)))
        = length (leaderboardRef (sWindow 2 0))"
    by (simp add: ticks_no_insert [OF quarter])
  have k8: "\<forall>k\<le>windowPeriod (sWindow 8 4).
      length (leaderboardRef ((tick pool15 rndQuarter ^^ k) (sWindow 8 4)))
        = length (leaderboardRef (sWindow 8 4))"
    by (simp add: ticks_no_insert [OF quarter])
  have k15: "\<forall>k\<le>windowPeriod (sWindow 15 3).
      length (leaderboardRef ((tick pool15 rnd15 ^^ k) (sWindow 15 3)))
        = length (leaderboardRef (sWindow 15 3))"
    using ticks_keep_15 [where s = "sWindow 15 3" and pool = pool15 and rnd = rnd15]
    by (simp add: len)
  have "0 \<le> visibleStartIndex (sWindow 2 0)"
    "visibleStartIndex (sWindow 2 0) < int (windowPeriod (sWindow 2 0))"
    by (simp_all add: vsi p2)
  from window_rotation_period [OF this k2]
  have a: "visibleStartIndex ((tick pool15 rndQuarter ^^ 1) (sWindow 2 0)) = 0"
    unfolding p2 vsi by blast
  have "0 \<le> visibleStartIndex (sWindow 8 4)"
    "visibleStartIndex (sWindow 8 4) < int (windowPeriod (sWindow 8 4))"
    by (simp_all add: vsi p8)
  from window_rotation_period [OF this k8]
  have b: "visibleStartIndex ((tick pool15 rndQuarter ^^ 5) (sWindow 8 4)) = 4"
    "visibleStartIndex ((tick pool15 rndQuarter ^^ 2) (sWindow 8 4)) \<noteq> 4"
    unfolding p8 vsi by simp_all
  have "0 \<le> visibleStartIndex (sWindow 15 3)"
    "visibleStartIndex (sWindow 15 3) < int (windowPeriod (sWindow 15 3))"
    by (simp_all add: vsi p15)
  from window_rotation_period [OF this k15]
  have d: "visibleStartIndex ((tick pool15 rnd15 ^^ 12) (sWindow 15 3)) = 3"
    "visibleStartIndex ((tick pool15 rnd15 ^^ 5) (sWindow 15 3)) \<noteq> 3"
    unfolding p15 vsi by simp_all
  from p2 a p8 b p15 d show ?thesis by blast
qed

section \<open>The merge at game over\<close>

text \<open>
  C10. On every render that takes the status from \<open>PLAYING\<close> to \<open>GAME_OVER\<close>: with a fair
  source and a pool of at least 15 distinct names the render returns; and whenever it
  returns, the store holds exactly 16 entries: the 15 generated for
  \<open>Math.max(score, highScore)\<close> and the player's entry, sorted together. The player's entry
  has the name \<open>YOU\<close> and the raw score, with no floor applied, so for a score below 50 the
  store holds an entry whose score is below 50.
\<close>

theorem game_over_merge_sixteen:
  assumes "status (props s) = PLAYING" and "status p = GAME_OVER"
  shows "(fairSource pool rnd \<and> 15 \<le> card (set pool) \<longrightarrow> (\<exists>s'. render pool rnd s p = Some s'))
     \<and> (render pool rnd s p = Some s' \<longrightarrow>
          length (leaderboardRef s') = 16
          \<and> leaderboard s' = leaderboardRef s'
          \<and> (\<exists>generated c'.
                generateLeaderboardEntries pool rnd (calls s) (jmax (scoreProp p) (highScore p))
                  = Some (generated, c')
                \<and> length generated = 15
                \<and> leaderboardRef s' = sortBy byScoreDesc (generated @ [playerEntry (scoreProp p)])
                \<and> mset (leaderboardRef s') = add_mset (playerEntry (scoreProp p)) (mset generated))
          \<and> playerEntry (scoreProp p) \<in> set (leaderboardRef s')
          \<and> (jlt (scoreProp p) (Num 50) \<longrightarrow>
                (\<exists>e\<in>set (leaderboardRef s'). jlt (score e) (Num 50))))
     \<and> username (playerEntry (scoreProp p)) = Some ''YOU''
     \<and> score (playerEntry (scoreProp p)) = scoreProp p"
proof -
  let ?pe = "playerEntry (scoreProp p)"
  from assms have ne: "p \<noteq> props s" by auto
  have 0: "\<exists>s'. render pool rnd s p = Some s'" if "fairSource pool rnd \<and> 15 \<le> card (set pool)"
    using that render_returns [of pool rnd s p] by blast
  have 4: "username ?pe = Some ''YOU''" "score ?pe = scoreProp p"
    by (simp_all add: playerEntry_def)
  have 7: "length (leaderboardRef s') = 16
          \<and> leaderboard s' = leaderboardRef s'
          \<and> (\<exists>generated c'.
                generateLeaderboardEntries pool rnd (calls s) (jmax (scoreProp p) (highScore p))
                  = Some (generated, c')
                \<and> length generated = 15
                \<and> leaderboardRef s' = sortBy byScoreDesc (generated @ [?pe])
                \<and> mset (leaderboardRef s') = add_mset ?pe (mset generated))
          \<and> ?pe \<in> set (leaderboardRef s')
          \<and> (jlt (scoreProp p) (Num 50) \<longrightarrow>
                (\<exists>e\<in>set (leaderboardRef s'). jlt (score e) (Num 50)))"
    if r: "render pool rnd s p = Some s'"
  proof -
    from render_game_over [OF assms(2) ne r] obtain generated where
      g: "generateLeaderboardEntries pool rnd (calls s) (jmax (scoreProp p) (highScore p))
            = Some (generated, calls s')"
      and ref: "leaderboardRef s' = sortBy byScoreDesc (generated @ [?pe])"
      and lb: "leaderboard s' = leaderboardRef s'"
      by blast
    from generate_shape [OF g] have len: "length generated = 15" by simp
    have 1: "length (leaderboardRef s') = 16" unfolding ref length_sortBy using len by simp
    have 2: "mset (leaderboardRef s') = add_mset ?pe (mset generated)"
      unfolding ref mset_sortBy by simp
    have 3: "?pe \<in> set (leaderboardRef s')" unfolding ref set_sortBy by simp
    have 5: "\<exists>e\<in>set (leaderboardRef s'). jlt (score e) (Num 50)" if "jlt (scoreProp p) (Num 50)"
    proof (rule bexI [OF _ 3])
      show "jlt (score ?pe) (Num 50)" using 4 that by simp
    qed
    from g len ref 2
    have 6: "\<exists>generated c'.
             generateLeaderboardEntries pool rnd (calls s) (jmax (scoreProp p) (highScore p))
               = Some (generated, c')
             \<and> length generated = 15
             \<and> leaderboardRef s' = sortBy byScoreDesc (generated @ [?pe])
             \<and> mset (leaderboardRef s') = add_mset ?pe (mset generated)"
      by blast
    from 1 lb 6 3 5 show ?thesis by blast
  qed
  from 0 7 4 show ?thesis by blast
qed

theorem game_over_merge_sixteen_witness:
  "status pPlay = PLAYING \<and> status pOver10 = GAME_OVER \<and> jlt (scoreProp pOver10) (Num 50)
   \<and> fairSource pool15 rnd15 \<and> 15 \<le> card (set pool15)
   \<and> (\<exists>s0 s1 s'.
          mount pool15 rnd15 0 pMenu = Some s0
          \<and> render pool15 rnd15 s0 pPlay = Some s1
          \<and> render pool15 rnd15 s1 pOver10 = Some s'
          \<and> length (leaderboardRef s') = 16
          \<and> playerEntry (Num 10) \<in> set (leaderboardRef s')
          \<and> (\<exists>e\<in>set (leaderboardRef s'). jlt (score e) (Num 50)))"
proof -
  have st: "status pPlay = PLAYING" "status pOver10 = GAME_OVER"
    and lt: "jlt (scoreProp pOver10) (Num 50)" and sc: "scoreProp pOver10 = Num 10"
    by (simp_all add: pPlay_def pOver10_def jlt_def)
  have c: "15 \<le> card (set pool15)" by (simp add: card_pool15)
  from mount_pool15_returns obtain s0 where s0: "mount pool15 rnd15 0 pMenu = Some s0" by blast
  from render_pool15_returns obtain s1 where s1: "render pool15 rnd15 s0 pPlay = Some s1" by blast
  from render_keeps [OF s1] st(1) have pl: "status (props s1) = PLAYING" by simp
  from game_over_merge_sixteen [OF pl st(2), where pool = pool15 and rnd = rnd15]
    fairSource_rnd15 c
  obtain s' where s': "render pool15 rnd15 s1 pOver10 = Some s'" by blast
  from game_over_merge_sixteen [OF pl st(2), where pool = pool15 and rnd = rnd15 and s' = s']
    s' lt sc
  have "length (leaderboardRef s') = 16 \<and> playerEntry (Num 10) \<in> set (leaderboardRef s')
        \<and> (\<exists>e\<in>set (leaderboardRef s'). jlt (score e) (Num 50))"
    by simp
  with s0 s1 s' have "\<exists>s0 s1 s'.
          mount pool15 rnd15 0 pMenu = Some s0
          \<and> render pool15 rnd15 s0 pPlay = Some s1
          \<and> render pool15 rnd15 s1 pOver10 = Some s'
          \<and> length (leaderboardRef s') = 16
          \<and> playerEntry (Num 10) \<in> set (leaderboardRef s')
          \<and> (\<exists>e\<in>set (leaderboardRef s'). jlt (score e) (Num 50))"
    by blast
  with st lt fairSource_rnd15 c show ?thesis by simp
qed

section \<open>The rank shown at game over\<close>

text \<open>
  C7. \<open>playerRank\<close> is \<open>findIndex\<close> for the name \<open>YOU\<close>, plus one. For every snapshot and
  every identifier, \<open>findIndex + 1\<close> is the 1-based index of the first entry whose name is
  the identifier, and is 0, the absent result (line 554 shows a rank only when it is
  positive), exactly when no entry has that name. On the snapshot merged at game over,
  the sort of the generated entries followed by the player's entry: if the player's score
  strictly exceeds every generated score, the rank is 1; and when no generated entry is
  named \<open>YOU\<close>, as is the case when the pool does not contain that name, the rank is the
  position of the player's entry in the sorted sequence, which comes after exactly the
  generated entries whose score is at least the player's. Where the order of the scores
  matters, the scores are numbers that the comparator orders (every number but \<open>NaN\<close>).
\<close>

theorem player_rank_position:
  "(findIndex (\<lambda>entry. username entry = ident) snapshot + 1 = 0
      \<longleftrightarrow> (\<forall>e\<in>set snapshot. username e \<noteq> ident))
   \<and> ((\<exists>e\<in>set snapshot. username e = ident) \<longrightarrow>
        (\<exists>k<length snapshot.
           findIndex (\<lambda>entry. username entry = ident) snapshot + 1 = int k + 1
           \<and> username (snapshot ! k) = ident
           \<and> (\<forall>j<k. username (snapshot ! j) \<noteq> ident)))
   \<and> playerRank snapshot = findIndex (\<lambda>entry. username entry = Some ''YOU'') snapshot + 1
   \<and> ((\<forall>e\<in>set generated. sortable (score e) \<and> jlt (score e) sc) \<and> sortable sc \<longrightarrow>
        playerRank (sortBy byScoreDesc (generated @ [playerEntry sc])) = 1)
   \<and> ((\<forall>e\<in>set generated. username e \<noteq> Some ''YOU'') \<longrightarrow>
        (\<exists>k\<le>length generated.
           playerRank (sortBy byScoreDesc (generated @ [playerEntry sc])) = int k + 1
           \<and> sortBy byScoreDesc (generated @ [playerEntry sc]) ! k = playerEntry sc
           \<and> (\<forall>j<k. sortBy byScoreDesc (generated @ [playerEntry sc]) ! j \<noteq> playerEntry sc)
           \<and> ((\<forall>e\<in>set generated. sortable (score e)) \<and> sortable sc \<longrightarrow>
                 k = length (filter (\<lambda>e. jle sc (score e)) generated))))
   \<and> (generateLeaderboardEntries pool rnd c ps = Some (generated, c') \<and> ''YOU'' \<notin> set pool \<longrightarrow>
        (\<forall>e\<in>set generated. username e \<noteq> Some ''YOU''))"
proof -
  let ?P = "\<lambda>entry. username entry = ident"
  have 1: "findIndex ?P snapshot + 1 = 0 \<longleftrightarrow> (\<forall>e\<in>set snapshot. username e \<noteq> ident)"
    using findIndex_absent [of ?P snapshot] by auto
  have 2: "\<exists>k<length snapshot. findIndex ?P snapshot + 1 = int k + 1
           \<and> username (snapshot ! k) = ident \<and> (\<forall>j<k. username (snapshot ! j) \<noteq> ident)"
    if "\<exists>e\<in>set snapshot. username e = ident"
    using findIndex_first [of snapshot ?P, OF that] by simp
  have 3: "playerRank snapshot = findIndex (\<lambda>entry. username entry = Some ''YOU'') snapshot + 1"
    by (simp add: playerRank_def)
  have 4: "playerRank (sortBy byScoreDesc (generated @ [playerEntry sc])) = 1"
    if "(\<forall>e\<in>set generated. sortable (score e) \<and> jlt (score e) sc) \<and> sortable sc"
    using that player_on_top [of generated sc] by blast
  have 5: "\<exists>k\<le>length generated.
           playerRank (sortBy byScoreDesc (generated @ [playerEntry sc])) = int k + 1
           \<and> sortBy byScoreDesc (generated @ [playerEntry sc]) ! k = playerEntry sc
           \<and> (\<forall>j<k. sortBy byScoreDesc (generated @ [playerEntry sc]) ! j \<noteq> playerEntry sc)
           \<and> ((\<forall>e\<in>set generated. sortable (score e)) \<and> sortable sc \<longrightarrow>
                 k = length (filter (\<lambda>e. jle sc (score e)) generated))"
    if h: "\<forall>e\<in>set generated. username e \<noteq> Some ''YOU''"
  proof -
    from player_position [OF h, of sc] obtain k where k: "k \<le> length generated"
      "playerRank (sortBy byScoreDesc (generated @ [playerEntry sc])) = int k + 1"
      "sortBy byScoreDesc (generated @ [playerEntry sc]) ! k = playerEntry sc"
      "\<forall>j<k. sortBy byScoreDesc (generated @ [playerEntry sc]) ! j \<noteq> playerEntry sc"
      by blast
    have "k = length (filter (\<lambda>e. jle sc (score e)) generated)"
      if "(\<forall>e\<in>set generated. sortable (score e)) \<and> sortable sc"
      using k(2) player_position_count [OF h, of sc] that by simp
    with k show ?thesis by blast
  qed
  have 6: "\<forall>e\<in>set generated. username e \<noteq> Some ''YOU''"
    if "generateLeaderboardEntries pool rnd c ps = Some (generated, c') \<and> ''YOU'' \<notin> set pool"
    using that generated_names [of pool rnd c ps generated c'] by blast
  from 1 2 3 4 5 6 show ?thesis by blast
qed

theorem player_rank_position_witness:
  "''YOU'' \<notin> set pool15
   \<and> list_all (\<lambda>e. username e \<noteq> Some ''YOU'') store15
   \<and> list_all (\<lambda>e. sortable (score e) \<and> jlt (score e) (Num 2000)) store15
   \<and> sortable (Num 2000) \<and> sortable (Num 1100)
   \<and> playerRank store15 = 0
   \<and> playerRank (sortBy byScoreDesc (store15 @ [playerEntry (Num 2000)])) = 1
   \<and> playerRank (sortBy byScoreDesc (store15 @ [playerEntry (Num 1100)])) = 10
   \<and> sortBy byScoreDesc (store15 @ [playerEntry (Num 1100)]) ! 9 = playerEntry (Num 1100)
   \<and> (\<exists>generated c'.
         generateLeaderboardEntries pool15 rnd15 47 (jmax (Num 800) (Num 500))
           = Some (generated, c')
         \<and> list_all (\<lambda>e. username e \<noteq> Some ''YOU'') generated
         \<and> 0 < playerRank (sortBy byScoreDesc (generated @ [playerEntry (Num 800)]))
         \<and> sortBy byScoreDesc (generated @ [playerEntry (Num 800)])
             ! nat (playerRank (sortBy byScoreDesc (generated @ [playerEntry (Num 800)])) - 1)
           = playerEntry (Num 800))"
proof -
  have np: "''YOU'' \<notin> set pool15" by (simp add: pool15_def)
  have names: "\<forall>e\<in>set store15. username e \<noteq> Some ''YOU''" by (simp add: store15_def)
  have below: "\<forall>e\<in>set store15. sortable (score e) \<and> jlt (score e) (Num 2000)"
    by (simp add: store15_def jlt_def)
  have srt: "sortable (Num 2000)" "sortable (Num 1100)" by simp_all
  have c: "15 \<le> card (set pool15)" by (simp add: card_pool15)
  from generate_returns [OF fairSource_rnd15 c] obtain generated c' where
    g: "generateLeaderboardEntries pool15 rnd15 47 (jmax (Num 800) (Num 500))
          = Some (generated, c')"
    by blast
  note a = player_rank_position [of "Some ''YOU''" store15 store15 "Num 2000"]
  note b = player_rank_position [of "Some ''YOU''" store15 store15 "Num 1100"]
  note d = player_rank_position [of "Some ''YOU''" store15 generated "Num 800" pool15 rnd15 47
      "jmax (Num 800) (Num 500)" c']
  from a names have absent: "playerRank store15 = 0" by simp
  from a below srt(1) have top: "playerRank (sortBy byScoreDesc (store15 @ [playerEntry (Num 2000)])) = 1"
    by blast
  have cnt: "length (filter (\<lambda>e. jle (Num 1100) (score e)) store15) = 9"
    by (simp add: store15_def jle_def jlt_def)
  from b names sortable_store15 srt(2) obtain k where
    "playerRank (sortBy byScoreDesc (store15 @ [playerEntry (Num 1100)])) = int k + 1"
    "sortBy byScoreDesc (store15 @ [playerEntry (Num 1100)]) ! k = playerEntry (Num 1100)"
    "k = length (filter (\<lambda>e. jle (Num 1100) (score e)) store15)"
    by blast
  with cnt have mid: "playerRank (sortBy byScoreDesc (store15 @ [playerEntry (Num 1100)])) = 10"
    "sortBy byScoreDesc (store15 @ [playerEntry (Num 1100)]) ! 9 = playerEntry (Num 1100)"
    by simp_all
  from d g np have gn: "\<forall>e\<in>set generated. username e \<noteq> Some ''YOU''" by blast
  with d obtain j where
    "playerRank (sortBy byScoreDesc (generated @ [playerEntry (Num 800)])) = int j + 1"
    "sortBy byScoreDesc (generated @ [playerEntry (Num 800)]) ! j = playerEntry (Num 800)"
    by blast
  then have over: "0 < playerRank (sortBy byScoreDesc (generated @ [playerEntry (Num 800)]))"
    "sortBy byScoreDesc (generated @ [playerEntry (Num 800)])
       ! nat (playerRank (sortBy byScoreDesc (generated @ [playerEntry (Num 800)])) - 1)
     = playerEntry (Num 800)"
    by simp_all
  from g gn over have sc: "\<exists>generated c'.
         generateLeaderboardEntries pool15 rnd15 47 (jmax (Num 800) (Num 500))
           = Some (generated, c')
         \<and> list_all (\<lambda>e. username e \<noteq> Some ''YOU'') generated
         \<and> 0 < playerRank (sortBy byScoreDesc (generated @ [playerEntry (Num 800)]))
         \<and> sortBy byScoreDesc (generated @ [playerEntry (Num 800)])
             ! nat (playerRank (sortBy byScoreDesc (generated @ [playerEntry (Num 800)])) - 1)
           = playerEntry (Num 800)"
    unfolding list_all_iff by blast
  from names below have "list_all (\<lambda>e. username e \<noteq> Some ''YOU'') store15"
    "list_all (\<lambda>e. sortable (score e) \<and> jlt (score e) (Num 2000)) store15"
    unfolding list_all_iff by simp_all
  with np srt absent top mid sc show ?thesis by blast
qed

section \<open>The next milestone\<close>





end
